theory Spec2Isabelle
  imports Main "HOL-Library.Signed_Division"
begin

section \<open>Constants and data of ipc.h\<close>

definition NUMBER_OF_ENTRIES :: nat where
  "NUMBER_OF_ENTRIES = 200"

definition MAXIMUM_SOLUTION_LENGTH :: nat where
  "MAXIMUM_SOLUTION_LENGTH = 8"

definition INT_MAX :: nat where
  "INT_MAX = 2147483647"

text \<open>
  \<open>vertex_t\<close>: both fields are C \<open>int\<close>s. The colour is only ever \<open>0\<close> or
  \<open>rand() % 3\<close>, the key is the result of an explicit 32-bit truncation.
\<close>

record vertex_t =
  key :: int
  color :: int

text \<open>
  \<open>edge_t\<close> holds two pointers into the generator's \<open>vertices\<close> array. A pointer
  \<open>&vertices[k]\<close> is modelled by the index \<open>k\<close>, so two edges that point to the same
  vertex see the same colour after every recolouring, as in the source.
\<close>

record edge_t =
  v1 :: nat
  v2 :: nat

text \<open>
  \<open>cb_entry_t\<close>: \<open>length\<close> is a \<open>size_t\<close> (never negative, never used in arithmetic
  that could wrap); the two arrays have \<open>MAXIMUM_SOLUTION_LENGTH\<close> cells each.
\<close>

record cb_entry_t =
  length_e :: nat
  from_vertices :: "int list"
  to_vertices :: "int list"

record cb_t =
  signal :: int
  rd :: int
  wr :: int
  entries :: "cb_entry_t list"

section \<open>Graph construction (generator.c, parse_argv and helpers)\<close>

record graph =
  edges :: "edge_t list"
  vertices :: "vertex_t list"

text \<open>
  \<open>strtok(s, "-")\<close> called until it returns \<open>NULL\<close>: the maximal non-empty runs of
  characters other than \<open>-\<close>, in order. \<open>cur\<close> is the token being read.
\<close>

fun strtok_dash :: "string \<Rightarrow> string \<Rightarrow> string list" where
  "strtok_dash cur [] = (if cur = [] then [] else [cur])"
| "strtok_dash cur (c # cs) =
     (if c = CHR ''-''
      then (if cur = [] then strtok_dash [] cs else cur # strtok_dash [] cs)
      else strtok_dash (cur @ [c]) cs)"

definition isspace :: "char \<Rightarrow> bool" where
  "isspace c = (c = CHR '' '' \<or> c = CHR 0x09 \<or> c = CHR 0x0A \<or> c = CHR 0x0B
                \<or> c = CHR 0x0C \<or> c = CHR 0x0D)"

definition isdigit :: "char \<Rightarrow> bool" where
  "isdigit c = (48 \<le> (of_char c :: nat) \<and> (of_char c :: nat) \<le> 57)"

definition digit_val :: "char \<Rightarrow> int" where
  "digit_val c = int (of_char c) - 48"

definition LONG_MAX :: int where
  "LONG_MAX = 9223372036854775807"

definition LONG_MIN :: int where
  "LONG_MIN = - 9223372036854775808"

text \<open>
  \<open>strtol(s, &next, 10)\<close>: leading white space, an optional sign, then decimal digits;
  the value saturates at the limits of \<open>long\<close>. The result is the value together with
  the unread rest of the string; when no digit is read the rest is the whole input
  (\<open>next == s\<close>), which is what the caller tests.
\<close>

definition strtol :: "string \<Rightarrow> int \<times> string \<times> bool" where
  "strtol s =
     (let body = dropWhile isspace s;
          neg = (body \<noteq> [] \<and> hd body = CHR ''-'');
          signed = (body \<noteq> [] \<and> (hd body = CHR ''-'' \<or> hd body = CHR ''+''));
          ds = (if signed then tl body else body);
          digits = takeWhile isdigit ds;
          n = foldl (\<lambda>a d. 10 * a + digit_val d) 0 digits;
          v = (if neg then max LONG_MIN (- n) else min LONG_MAX n)
      in if digits = [] then (0, s, True) else (v, dropWhile isdigit ds, False))"

text \<open>The cast \<open>(int)\<close> of a \<open>long\<close>: the low 32 bits, read as a signed number.\<close>

definition int_of_long :: "int \<Rightarrow> int" where
  "int_of_long x = (x + 2147483648) mod 4294967296 - 2147483648"

text \<open>
  Lines 211--231 of \<open>parse_argv\<close> for one argument: \<open>Inl\<close> is the call of \<open>usage\<close>
  (which exits) with its message. \<open>tokens\<close> starts at 1 whether or not the first
  \<open>strtok\<close> found anything, and grows with every further token.
\<close>

definition parse_token :: "string \<Rightarrow> string + (int \<times> int)" where
  "parse_token arg =
     (let toks = strtok_dash [] arg;
          tokens = (if toks = [] then 1 else length toks)
      in if tokens \<noteq> 2 then Inl ''edges must consist of exactly two vertices''
         else (case (strtol (toks ! 0), strtol (last toks)) of
                 ((a, v1_next, v1_none), (b, v2_next, v2_none)) \<Rightarrow>
                   if v1_none \<or> v1_next \<noteq> [] \<or> v2_none \<or> v2_next \<noteq> []
                   then Inl ''vertex keys must consist of digits only''
                   else Inr (int_of_long a, int_of_long b)))"

fun find_vertex_by_key :: "vertex_t list \<Rightarrow> int \<Rightarrow> nat option" where
  "find_vertex_by_key [] k = None"
| "find_vertex_by_key (v # vs) k =
     (if key v = k then Some 0 else map_option Suc (find_vertex_by_key vs k))"

definition add_new_vertex :: "vertex_t list \<Rightarrow> int \<Rightarrow> vertex_t list \<times> nat" where
  "add_new_vertex vs k = (vs @ [\<lparr>key = k, color = 0\<rparr>], length vs)"

fun find_edge_by_vertices :: "edge_t list \<Rightarrow> nat \<Rightarrow> nat \<Rightarrow> nat option" where
  "find_edge_by_vertices [] p q = None"
| "find_edge_by_vertices (e # es) p q =
     (if (v1 e = p \<and> v2 e = q) \<or> (v1 e = q \<and> v2 e = p) then Some 0
      else map_option Suc (find_edge_by_vertices es p q))"

definition add_new_edge :: "edge_t list \<Rightarrow> nat \<Rightarrow> nat \<Rightarrow> edge_t list" where
  "add_new_edge es p q = es @ [\<lparr>v1 = p, v2 = q\<rparr>]"

text \<open>Lines 233--246: what one well-formed argument does to the two arrays.\<close>

definition add_token :: "int \<Rightarrow> int \<Rightarrow> graph \<Rightarrow> graph" where
  "add_token a b g =
     (let (vs1, p) = (case find_vertex_by_key (vertices g) a of
                        None \<Rightarrow> add_new_vertex (vertices g) a
                      | Some i \<Rightarrow> (vertices g, i));
          (vs2, q) = (case find_vertex_by_key vs1 b of
                        None \<Rightarrow> add_new_vertex vs1 b
                      | Some i \<Rightarrow> (vs1, i));
          es = (case find_edge_by_vertices (edges g) p q of
                  None \<Rightarrow> add_new_edge (edges g) p q
                | Some i \<Rightarrow> edges g)
      in \<lparr>edges = es, vertices = vs2\<rparr>)"

fun parse_args :: "string list \<Rightarrow> graph \<Rightarrow> string + graph" where
  "parse_args [] g = Inr g"
| "parse_args (arg # args) g =
     (case parse_token arg of
        Inl msg \<Rightarrow> Inl msg
      | Inr (a, b) \<Rightarrow> parse_args args (add_token a b g))"

text \<open>\<open>argv[0]\<close> is the program name; both lengths start at 0.\<close>

definition parse_argv :: "string list \<Rightarrow> string + graph" where
  "parse_argv argv = parse_args (tl argv) \<lparr>edges = [], vertices = []\<rparr>"

section \<open>One search attempt (generator.c, randomize and set_removal_candidates)\<close>

text \<open>
  \<open>rnd i\<close> is the value the \<open>i\<close>-th call of \<open>rand()\<close> in this attempt returns
  (between 0 and \<open>RAND_MAX\<close>).
\<close>

fun randomize_from :: "nat \<Rightarrow> (nat \<Rightarrow> nat) \<Rightarrow> vertex_t list \<Rightarrow> vertex_t list" where
  "randomize_from i rnd [] = []"
| "randomize_from i rnd (v # vs) =
     v\<lparr>color := int (rnd i mod 3)\<rparr> # randomize_from (Suc i) rnd vs"

definition randomize :: "(nat \<Rightarrow> nat) \<Rightarrow> vertex_t list \<Rightarrow> vertex_t list" where
  "randomize rnd vs = randomize_from 0 rnd vs"

definition same_color :: "vertex_t list \<Rightarrow> edge_t \<Rightarrow> bool" where
  "same_color vs e = (color (vs ! v1 e) = color (vs ! v2 e))"

text \<open>
  The loop of \<open>set_removal_candidates\<close>, over the edges not yet visited. The array
  \<open>removal_candidates\<close> is uninitialised storage of 8 cells in the source; the model
  keeps its written prefix \<open>rc\<close>, and \<open>j\<close> is the index of the next free cell.
\<close>

fun src_loop :: "vertex_t list \<Rightarrow> edge_t list \<Rightarrow> nat \<Rightarrow> edge_t list \<Rightarrow> nat \<times> edge_t list" where
  "src_loop vs [] j rc = (j, rc)"
| "src_loop vs (e # es) j rc =
     (if j < MAXIMUM_SOLUTION_LENGTH
      then (if same_color vs e then src_loop vs es (Suc j) (rc @ [e])
            else src_loop vs es j rc)
      else (j, rc))"

definition set_removal_candidates :: "vertex_t list \<Rightarrow> edge_t list \<Rightarrow> nat \<times> edge_t list" where
  "set_removal_candidates vs es = src_loop vs es 0 []"

text \<open>
  The conflict set in the words of the specification: every edge whose two endpoints
  share a colour, in edge order.
\<close>

definition conflict_set :: "vertex_t list \<Rightarrow> edge_t list \<Rightarrow> edge_t list" where
  "conflict_set vs es = filter (same_color vs) es"

text \<open>
  Lines 175--180 of \<open>main\<close>: recolour, scan, and the size test that decides between
  discarding (\<open>None\<close>) and publishing the collected edges.
\<close>

definition search_attempt ::
  "(nat \<Rightarrow> nat) \<Rightarrow> graph \<Rightarrow> vertex_t list \<times> (nat \<times> edge_t list) option" where
  "search_attempt rnd g =
     (let vs = randomize rnd (vertices g);
          (n, rc) = set_removal_candidates vs (edges g)
      in if n > MAXIMUM_SOLUTION_LENGTH then (vs, None) else (vs, Some (n, rc)))"

text \<open>Lines 182--186: the entry at the write position is overwritten in place.\<close>

fun store_keys :: "vertex_t list \<Rightarrow> edge_t list \<Rightarrow> nat list \<Rightarrow> cb_entry_t \<Rightarrow> cb_entry_t" where
  "store_keys vs rc [] e = e"
| "store_keys vs rc (i # ns) e =
     store_keys vs rc ns
       (e\<lparr>from_vertices := (from_vertices e)[i := key (vs ! v1 (rc ! i))],
          to_vertices := (to_vertices e)[i := key (vs ! v2 (rc ! i))]\<rparr>)"

definition store_entry :: "vertex_t list \<Rightarrow> nat \<Rightarrow> edge_t list \<Rightarrow> cb_entry_t \<Rightarrow> cb_entry_t" where
  "store_entry vs n rc e = store_keys vs rc [0..<n] (e\<lparr>length_e := n\<rparr>)"

section \<open>Shared memory, semaphores and what a process does to them\<close>

record shared =
  cb :: cb_t
  free_sem :: nat
  used_sem :: nat
  write_sem :: nat

datatype sem_id = FREE_SEM_NAME | USED_SEM_NAME | WRITE_SEM_NAME

text \<open>How a call of \<open>sem_wait\<close> comes back: with the permit, or with \<open>-1\<close> and \<open>errno\<close>.\<close>

datatype wait_result = Acquired | EINTR | EINVAL

datatype wait_outcome = Got nat | Interrupted | Failed | Would_block

text \<open>
  \<open>sem_wait\<close> on a semaphore whose count is \<open>n\<close>. A call that is to return with the
  permit cannot return while the count is 0: the caller stays suspended.
\<close>

definition sem_wait :: "wait_result \<Rightarrow> nat \<Rightarrow> wait_outcome" where
  "sem_wait r n =
     (case r of
        EINTR \<Rightarrow> Interrupted
      | EINVAL \<Rightarrow> Failed
      | Acquired \<Rightarrow> if n = 0 then Would_block else Got (n - 1))"

datatype exit_status = EXIT_SUCCESS | EXIT_FAILURE

text \<open>
  The calls and the accesses to the shared region a process makes, in program order.
  \<open>Sem_wait s r\<close> is a call of \<open>sem_wait\<close> that came back as \<open>r\<close>, \<open>Sem_blocked s\<close>
  one that has not come back. \<open>Read_slot k n\<close> is a read of slot \<open>k\<close> that finds the
  length \<open>n\<close> there, \<open>Write_slot k n\<close> the store of an entry of length \<open>n\<close> into
  slot \<open>k\<close>. Colour escape codes, line ends and the process id are left out of the
  printed texts.
\<close>

datatype action =
    Shm_open | Ftruncate | Mmap | Munmap | Close | Shm_unlink
  | Sem_open sem_id | Sem_close sem_id | Sem_unlink sem_id
  | Sem_wait sem_id wait_result | Sem_blocked sem_id | Sem_post sem_id
  | Read_slot nat nat | Write_slot nat nat | Store_signal
  | Printf string | Printf_reported nat | Printf_solution nat "(int \<times> int) list"
  | Usage string | Print_errno string

definition close_sem :: "sem_id \<Rightarrow> action list" where
  "close_sem s = [Sem_close s, Sem_unlink s]"

definition close_all :: "action list" where
  "close_all = close_sem FREE_SEM_NAME @ close_sem USED_SEM_NAME @ close_sem WRITE_SEM_NAME"

text \<open>How one pass through a loop body ends.\<close>

datatype 'a flow =
    is_Continue: Continue (state_of: 'a)
  | is_Break: Break (state_of: 'a)
  | is_Exit: Exit (state_of: 'a)
  | is_Blocked: Blocked (state_of: 'a)
  | is_Out_of_bounds: Out_of_bounds (state_of: 'a)

text \<open>How a process stands after the inputs given to it.\<close>

datatype 'a run =
    Terminated exit_status (final: 'a)
  | Waiting (final: 'a)
  | Undefined (final: 'a)
  | Running (final: 'a)

definition in_bounds :: "int \<Rightarrow> bool" where
  "in_bounds i = (0 \<le> i \<and> i < int NUMBER_OF_ENTRIES)"

section \<open>The generator (generator.c, main)\<close>

record gen_st =
  gr :: graph
  gsh :: shared
  gtr :: "action list"

text \<open>
  What the outside contributes to one pass of the generator's loop: the value of \<open>quit\<close>
  at the loop test, what the other processes did to the shared state before the loop
  test and while each \<open>sem_wait\<close> was pending, how each \<open>sem_wait\<close> came back, and the
  values of \<open>rand()\<close>.
\<close>

record gen_input =
  quit_g :: bool
  env_top :: "shared \<Rightarrow> shared"
  env_write :: "shared \<Rightarrow> shared"
  res_write :: wait_result
  env_free :: "shared \<Rightarrow> shared"
  res_free :: wait_result
  rnd :: "nat \<Rightarrow> nat"

text \<open>Lines 182--191, reached with both permits held.\<close>

definition publish :: "vertex_t list \<Rightarrow> nat \<Rightarrow> edge_t list \<Rightarrow> gen_st \<Rightarrow> gen_st flow" where
  "publish vs n rc st =
     (let sh = gsh st; c = cb sh
      in if \<not> in_bounds (wr c) then Out_of_bounds st
         else
           let w = nat (wr c);
               c1 = c\<lparr>entries := (entries c)[w := store_entry vs n rc (entries c ! w)]\<rparr>;
               c2 = c1\<lparr>wr := (wr c1 + 1) smod int NUMBER_OF_ENTRIES\<rparr>;
               sh1 = sh\<lparr>cb := c2\<rparr>;
               sh2 = sh1\<lparr>used_sem := used_sem sh1 + 1\<rparr>;
               sh3 = sh2\<lparr>write_sem := write_sem sh2 + 1\<rparr>
           in Continue (st\<lparr>gsh := sh3,
                gtr := gtr st @ [Write_slot w n, Printf_reported n,
                                 Sem_post USED_SEM_NAME, Sem_post WRITE_SEM_NAME]\<rparr>))"

text \<open>Lines 155--191: the body of the loop.\<close>

definition gen_body :: "gen_input \<Rightarrow> gen_st \<Rightarrow> gen_st flow" where
  "gen_body i st =
     (let sh0 = env_write i (gsh st);
          st0 = st\<lparr>gsh := sh0, gtr := gtr st @ [Sem_wait WRITE_SEM_NAME (res_write i)]\<rparr>
      in case sem_wait (res_write i) (write_sem sh0) of
           Interrupted \<Rightarrow> Continue st0
         | Failed \<Rightarrow> Exit (st0\<lparr>gtr := gtr st0 @ close_all @ [Print_errno ''sem_wait failed'']\<rparr>)
         | Would_block \<Rightarrow>
             Blocked (st\<lparr>gsh := sh0, gtr := gtr st @ [Sem_blocked WRITE_SEM_NAME]\<rparr>)
         | Got n \<Rightarrow>
             let sh1 = env_free i (sh0\<lparr>write_sem := n\<rparr>);
                 st1 = st0\<lparr>gsh := sh1, gtr := gtr st0 @ [Sem_wait FREE_SEM_NAME (res_free i)]\<rparr>
             in (case sem_wait (res_free i) (free_sem sh1) of
                  Interrupted \<Rightarrow> Continue st1
                | Failed \<Rightarrow>
                    Exit (st1\<lparr>gtr := gtr st1 @ close_all @ [Print_errno ''sem_wait failed'']\<rparr>)
                | Would_block \<Rightarrow>
                    Blocked (st0\<lparr>gsh := sh1, gtr := gtr st0 @ [Sem_blocked FREE_SEM_NAME]\<rparr>)
                | Got m \<Rightarrow>
                    let st2 = st1\<lparr>gsh := sh1\<lparr>free_sem := m\<rparr>\<rparr>;
                        (vs, found) = search_attempt (rnd i) (gr st2);
                        st3 = st2\<lparr>gr := (gr st2)\<lparr>vertices := vs\<rparr>\<rparr>
                    in (case found of
                          None \<Rightarrow> Continue st3
                        | Some (k, rc) \<Rightarrow> publish vs k rc st3)))"

text \<open>
  The loop of line 154. \<open>Break\<close> is the loop left because its condition is false;
  \<open>Continue\<close> at the end of the inputs is a generator still in its loop.
\<close>

fun gen_loop :: "gen_input list \<Rightarrow> gen_st \<Rightarrow> gen_st flow" where
  "gen_loop [] st = Continue st"
| "gen_loop (i # ins) st =
     (let st1 = st\<lparr>gsh := env_top i (gsh st)\<rparr>
      in if quit_g i \<or> signal (cb (gsh st1)) \<noteq> 0 then Break st1
         else (case gen_body i st1 of
                 Continue st2 \<Rightarrow> gen_loop ins st2
               | r \<Rightarrow> r))"

text \<open>Lines 194--206.\<close>

definition gen_finish :: "gen_st \<Rightarrow> gen_st" where
  "gen_finish st =
     st\<lparr>gtr := gtr st
         @ (if signal (cb (gsh st)) = 1
            then [Printf ''Terminated by order of the supervisor process''] else [])
         @ [Munmap, Close] @ close_all @ [Printf ''Cleaned up all resources'']\<rparr>"

definition finish :: "('a \<Rightarrow> 'a) \<Rightarrow> 'a flow \<Rightarrow> 'a run" where
  "finish f r =
     (case r of
        Break st \<Rightarrow> Terminated EXIT_SUCCESS (f st)
      | Exit st \<Rightarrow> Terminated EXIT_FAILURE st
      | Blocked st \<Rightarrow> Waiting st
      | Out_of_bounds st \<Rightarrow> Undefined st
      | Continue st \<Rightarrow> Running st)"

text \<open>Whether \<open>shm_open\<close>, \<open>mmap\<close> and the three \<open>sem_open\<close> succeed.\<close>

record os_results =
  shm_open_ok :: bool
  ftruncate_ok :: bool
  mmap_ok :: bool
  free_sem_ok :: bool
  used_sem_ok :: bool
  write_sem_ok :: bool

definition open_sems :: "action list" where
  "open_sems = [Sem_open FREE_SEM_NAME, Sem_open USED_SEM_NAME, Sem_open WRITE_SEM_NAME]"

text \<open>
  \<open>main\<close> of the generator. \<open>sh\<close> is the shared state as the generator finds it when it
  attaches; before the mapping exists the state is only carried along.
\<close>

definition gen_main :: "string list \<Rightarrow> os_results \<Rightarrow> gen_input list \<Rightarrow> shared \<Rightarrow> gen_st run" where
  "gen_main argv su inputs sh =
     (let st = \<lparr>gr = \<lparr>edges = [], vertices = []\<rparr>, gsh = sh, gtr = []\<rparr>
      in if length argv < 2
         then Terminated EXIT_FAILURE (st\<lparr>gtr := [Usage ''At least one edge must be provided'']\<rparr>)
         else (case parse_argv argv of
            Inl msg \<Rightarrow> Terminated EXIT_FAILURE (st\<lparr>gtr := [Usage msg]\<rparr>)
          | Inr g \<Rightarrow>
              if \<not> shm_open_ok su
              then Terminated EXIT_FAILURE
                     (st\<lparr>gr := g, gtr := [Shm_open, Print_errno ''shm_open failed'']\<rparr>)
              else if \<not> mmap_ok su
              then Terminated EXIT_FAILURE
                     (st\<lparr>gr := g, gtr := [Shm_open, Mmap, Print_errno ''mmap failed'']\<rparr>)
              else if \<not> (used_sem_ok su \<and> free_sem_ok su \<and> write_sem_ok su)
              then Terminated EXIT_FAILURE
                     (st\<lparr>gr := g, gtr := [Shm_open, Mmap] @ open_sems @ close_all
                                          @ [Print_errno ''sem_open failed'']\<rparr>)
              else finish gen_finish
                     (gen_loop inputs
                        (st\<lparr>gr := g, gtr := [Shm_open, Mmap] @ open_sems
                                             @ [Printf ''Started generator'']\<rparr>))))"

section \<open>The supervisor (supervisor.c, main)\<close>

record sup_st =
  current_best :: cb_entry_t
  ssh :: shared
  str :: "action list"

record sup_input =
  quit_s :: bool
  env_used :: "shared \<Rightarrow> shared"
  res_used :: wait_result

text \<open>\<open>print_cb_entry_t\<close> (util.c): the pairs below \<open>length\<close>.\<close>

definition print_cb_entry_t :: "cb_entry_t \<Rightarrow> (int \<times> int) list" where
  "print_cb_entry_t e = map (\<lambda>i. (from_vertices e ! i, to_vertices e ! i)) [0..<length_e e]"

definition advance_rd :: "shared \<Rightarrow> shared" where
  "advance_rd sh = sh\<lparr>cb := (cb sh)\<lparr>rd := (rd (cb sh) + 1) smod int NUMBER_OF_ENTRIES\<rparr>\<rparr>"

definition post_free :: "shared \<Rightarrow> shared" where
  "post_free sh = sh\<lparr>free_sem := free_sem sh + 1\<rparr>"

text \<open>
  Lines 81--108: the body of the loop. The first test reads the slot at
  \<open>rd % NUMBER_OF_ENTRIES\<close> (C's \<open>%\<close> truncates towards zero), the others at \<open>rd\<close>.
\<close>

definition sup_body :: "sup_input \<Rightarrow> sup_st \<Rightarrow> sup_st flow" where
  "sup_body i st =
     (let sh0 = env_used i (ssh st);
          st0 = st\<lparr>ssh := sh0, str := str st @ [Sem_wait USED_SEM_NAME (res_used i)]\<rparr>
      in case sem_wait (res_used i) (used_sem sh0) of
           Interrupted \<Rightarrow> Continue st0
         | Failed \<Rightarrow> Exit (st0\<lparr>str := str st0 @ close_all @ [Print_errno ''sem_wait failed'']\<rparr>)
         | Would_block \<Rightarrow>
             Blocked (st\<lparr>ssh := sh0, str := str st @ [Sem_blocked USED_SEM_NAME]\<rparr>)
         | Got n \<Rightarrow>
             let sh1 = sh0\<lparr>used_sem := n\<rparr>; c = cb sh1;
                 r0 = rd c smod int NUMBER_OF_ENTRIES
             in if \<not> in_bounds r0 then Out_of_bounds (st0\<lparr>ssh := sh1\<rparr>)
                else if length_e (entries c ! nat r0) = 0
                then Break (st0\<lparr>ssh := post_free sh1,
                           str := str st0 @ [Read_slot (nat r0) 0, Printf ''The graph is 3-colorable'',
                                             Sem_post FREE_SEM_NAME]\<rparr>)
                else if \<not> in_bounds (rd c) then Out_of_bounds (st0\<lparr>ssh := sh1\<rparr>)
                else
                  let e = entries c ! nat (rd c)
                  in if length_e e \<ge> length_e (current_best st)
                     then Continue (st0\<lparr>ssh := post_free (advance_rd sh1),
                                       str := str st0 @ [Read_slot (nat (rd c)) (length_e e),
                                                         Sem_post FREE_SEM_NAME]\<rparr>)
                     else Continue (st0\<lparr>current_best := e,
                                       ssh := post_free (advance_rd sh1),
                                       str := str st0 @ [Read_slot (nat (rd c)) (length_e e),
                                                         Printf_solution (length_e e) (print_cb_entry_t e),
                                                         Sem_post FREE_SEM_NAME]\<rparr>))"

text \<open>The loop of line 80.\<close>

fun sup_loop :: "sup_input list \<Rightarrow> sup_st \<Rightarrow> sup_st flow" where
  "sup_loop [] st = Continue st"
| "sup_loop (i # ins) st =
     (if quit_s i then Break st
      else (case sup_body i st of
              Continue st1 \<Rightarrow> sup_loop ins st1
            | r \<Rightarrow> r))"

text \<open>Lines 111--123.\<close>

definition sup_finish :: "sup_st \<Rightarrow> sup_st" where
  "sup_finish st =
     st\<lparr>ssh := (ssh st)\<lparr>cb := (cb (ssh st))\<lparr>signal := 1\<rparr>\<rparr>,
        str := str st @ [Store_signal, Munmap, Close, Shm_unlink] @ close_all
               @ [Printf ''Cleaned up all resources'']\<rparr>"

text \<open>
  \<open>main\<close> of the supervisor. \<open>c0\<close> is the content of the mapped region (all zero for a
  freshly created object), \<open>e0\<close> the uninitialised stack storage of \<open>current_best\<close>, of
  which only \<open>length\<close> is set.
\<close>

definition sup_main ::
  "string list \<Rightarrow> os_results \<Rightarrow> sup_input list \<Rightarrow> cb_t \<Rightarrow> cb_entry_t \<Rightarrow> sup_st run" where
  "sup_main argv su inputs c0 e0 =
     (let sh = \<lparr>cb = c0, free_sem = 0, used_sem = 0, write_sem = 0\<rparr>;
          st = \<lparr>current_best = e0, ssh = sh, str = []\<rparr>
      in if length argv \<noteq> 1
         then Terminated EXIT_FAILURE (st\<lparr>str := [Usage ''Arguments must not be provided'']\<rparr>)
         else if \<not> shm_open_ok su
         then Terminated EXIT_FAILURE (st\<lparr>str := [Shm_open, Print_errno ''shm_open failed'']\<rparr>)
         else if \<not> ftruncate_ok su
         then Terminated EXIT_FAILURE
                (st\<lparr>str := [Shm_open, Ftruncate, Print_errno ''ftruncate failed'']\<rparr>)
         else if \<not> mmap_ok su
         then Terminated EXIT_FAILURE
                (st\<lparr>str := [Shm_open, Ftruncate, Mmap, Print_errno ''mmap failed'']\<rparr>)
         else if \<not> (used_sem_ok su \<and> free_sem_ok su \<and> write_sem_ok su)
         then Terminated EXIT_FAILURE
                (st\<lparr>str := [Shm_open, Ftruncate, Mmap] @ open_sems @ close_all
                            @ [Print_errno ''sem_open failed'']\<rparr>)
         else finish sup_finish
                (sup_loop inputs
                   (st\<lparr>current_best := e0\<lparr>length_e := INT_MAX\<rparr>,
                       ssh := \<lparr>cb = c0, free_sem = NUMBER_OF_ENTRIES, used_sem = 0, write_sem = 1\<rparr>,
                       str := [Shm_open, Ftruncate, Mmap] @ open_sems
                              @ [Printf ''Started supervisor'']\<rparr>)))"

text \<open>The region as \<open>ftruncate\<close> leaves a newly created object: every byte zero.\<close>

definition zero_entry :: cb_entry_t where
  "zero_entry = \<lparr>length_e = 0,
                 from_vertices = replicate MAXIMUM_SOLUTION_LENGTH 0,
                 to_vertices = replicate MAXIMUM_SOLUTION_LENGTH 0\<rparr>"

definition zero_cb :: cb_t where
  "zero_cb = \<lparr>signal = 0, rd = 0, wr = 0, entries = replicate NUMBER_OF_ENTRIES zero_entry\<rparr>"

section \<open>Notions the statements use\<close>

text \<open>The two vertices an edge points to, and their keys, as unordered pairs.\<close>

definition edge_ptrs :: "edge_t \<Rightarrow> nat set" where
  "edge_ptrs e = {v1 e, v2 e}"

definition edge_keys :: "vertex_t list \<Rightarrow> edge_t \<Rightarrow> int set" where
  "edge_keys vs e = {key (vs ! v1 e), key (vs ! v2 e)}"

text \<open>
  What \<open>parse_argv\<close> maintains: keys are unique, every edge points into the vertex
  array, and no two edges point to the same unordered pair.
\<close>

definition graph_ok :: "graph \<Rightarrow> bool" where
  "graph_ok g =
     (distinct (map key (vertices g))
      \<and> list_all (\<lambda>e. v1 e < length (vertices g) \<and> v2 e < length (vertices g)) (edges g)
      \<and> distinct (map edge_ptrs (edges g)))"

text \<open>A channel as the supervisor creates it, before any generator has attached.\<close>

definition fresh_shared :: shared where
  "fresh_shared = \<lparr>cb = zero_cb, free_sem = NUMBER_OF_ENTRIES, used_sem = 0, write_sem = 1\<rparr>"

text \<open>
  A pass of the generator's loop in which nothing interferes, both waits return with
  the permit and every \<open>rand()\<close> returns 0.
\<close>

definition all_zero :: gen_input where
  "all_zero = \<lparr>quit_g = False, env_top = id, env_write = id, res_write = Acquired,
     env_free = id, res_free = Acquired, rnd = (\<lambda>_. 0)\<rparr>"

text \<open>A star with nine edges: under one colour for all vertices every edge conflicts.\<close>

definition star9_argv :: "string list" where
  "star9_argv = [''generator'', ''0-1'', ''0-2'', ''0-3'', ''0-4'', ''0-5'',
                 ''0-6'', ''0-7'', ''0-8'', ''0-9'']"

definition star9 :: graph where
  "star9 = \<lparr>edges = map (\<lambda>k. \<lparr>v1 = 0, v2 = k\<rparr>) [1..<10],
            vertices = map (\<lambda>k. \<lparr>key = int k, color = 0\<rparr>) [0..<10]\<rparr>"

text \<open>A triangle, given with every edge named twice.\<close>

definition triangle_argv :: "string list" where
  "triangle_argv = [''generator'', ''0-1'', ''1-2'', ''1-0'', ''2-0'', ''0-2'']"

definition triangle :: graph where
  "triangle = \<lparr>edges = [\<lparr>v1 = 0, v2 = 1\<rparr>, \<lparr>v1 = 1, v2 = 2\<rparr>, \<lparr>v1 = 2, v2 = 0\<rparr>],
               vertices = [\<lparr>key = 0, color = 0\<rparr>, \<lparr>key = 1, color = 0\<rparr>, \<lparr>key = 2, color = 0\<rparr>]\<rparr>"

text \<open>The slots a trace reads, in order.\<close>

fun slots_read :: "action list \<Rightarrow> nat list" where
  "slots_read [] = []"
| "slots_read (Read_slot k n # tr) = k # slots_read tr"
| "slots_read (a # tr) = slots_read tr"

text \<open>Every slot of the region holds a length that fits the two arrays.\<close>

definition entries_ok :: "shared \<Rightarrow> bool" where
  "entries_ok sh =
     (length (entries (cb sh)) = NUMBER_OF_ENTRIES
      \<and> list_all (\<lambda>e. length_e e \<le> MAXIMUM_SOLUTION_LENGTH) (entries (cb sh)))"

definition all_ok :: os_results where
  "all_ok = \<lparr>shm_open_ok = True, ftruncate_ok = True, mmap_ok = True,
             free_sem_ok = True, used_sem_ok = True, write_sem_ok = True\<rparr>"

text \<open>The generator with the star, attached to a fresh channel.\<close>

definition star9_start :: gen_st where
  "star9_start = \<lparr>gr = star9, gsh = fresh_shared, gtr = []\<rparr>"

definition star9_colored :: "vertex_t list" where
  "star9_colored = randomize (rnd all_zero) (vertices star9)"

definition star9_entry :: cb_entry_t where
  "star9_entry = \<lparr>length_e = 8, from_vertices = [0, 0, 0, 0, 0, 0, 0, 0],
                   to_vertices = [1, 2, 3, 4, 5, 6, 7, 8]\<rparr>"

text \<open>
  A channel whose slots are all unread, so that a generator holding the writer lock
  waits for a free slot; a pass in which that wait is interrupted; a pass that starts
  with \<open>quit\<close> set.
\<close>

definition full_shared :: shared where
  "full_shared = \<lparr>cb = zero_cb, free_sem = 0, used_sem = NUMBER_OF_ENTRIES, write_sem = 1\<rparr>"

definition interrupted_free :: gen_input where
  "interrupted_free = all_zero\<lparr>res_free := EINTR\<rparr>"

definition quit_now :: gen_input where
  "quit_now = all_zero\<lparr>quit_g := True\<rparr>"

text \<open>
  A start at which \<open>sem_open\<close> of the write semaphore fails, and a pass in which
  \<open>sem_wait\<close> on the write semaphore fails with an error other than \<open>EINTR\<close>.
\<close>

definition sem_open_fails :: os_results where
  "sem_open_fails = all_ok\<lparr>write_sem_ok := False\<rparr>"

definition wait_fails :: gen_input where
  "wait_fails = all_zero\<lparr>res_write := EINVAL\<rparr>"

definition full_start :: gen_st where
  "full_start = \<lparr>gr = triangle, gsh = full_shared, gtr = []\<rparr>"

text \<open>Further states, inputs and notions of the statements below.\<close>

text \<open>What a pass of the generator's loop appends to the trace.\<close>

definition gen_pass_action :: "action \<Rightarrow> bool" where
  "gen_pass_action a =
     (case a of
        Sem_wait s r \<Rightarrow> True
      | Sem_blocked s \<Rightarrow> True
      | Sem_post s \<Rightarrow> True
      | Write_slot k n \<Rightarrow> n \<le> MAXIMUM_SOLUTION_LENGTH
      | Printf_reported n \<Rightarrow> True
      | _ \<Rightarrow> False)"

definition gen_started :: "action list" where
  "gen_started = [Shm_open, Mmap] @ open_sems @ [Printf ''Started generator'']"

definition sup_pass_action :: "action \<Rightarrow> bool" where
  "sup_pass_action a =
     (case a of
        Sem_wait s r \<Rightarrow> True
      | Sem_blocked s \<Rightarrow> True
      | Sem_post s \<Rightarrow> True
      | Read_slot k n \<Rightarrow> True
      | Printf m \<Rightarrow> True
      | Printf_solution n ps \<Rightarrow> True
      | _ \<Rightarrow> False)"

definition sup_started :: "action list" where
  "sup_started = [Shm_open, Ftruncate, Mmap] @ open_sems @ [Printf ''Started supervisor'']"

text \<open>The supervisor's state when it enters its loop.\<close>

definition sup_enter :: "cb_t \<Rightarrow> cb_entry_t \<Rightarrow> sup_st" where
  "sup_enter c0 e0 =
     \<lparr>current_best = e0\<lparr>length_e := INT_MAX\<rparr>,
      ssh = \<lparr>cb = c0, free_sem = NUMBER_OF_ENTRIES, used_sem = 0, write_sem = 1\<rparr>,
      str = sup_started\<rparr>"

definition star9_publishes :: "shared \<Rightarrow> shared" where
  "star9_publishes sh = gsh (state_of (gen_body all_zero \<lparr>gr = star9, gsh = sh, gtr = []\<rparr>))"

definition after_star9 :: sup_input where
  "after_star9 = \<lparr>quit_s = False, env_used = star9_publishes, res_used = Acquired\<rparr>"

definition calm :: sup_input where
  "calm = \<lparr>quit_s = False, env_used = id, res_used = Acquired\<rparr>"

definition one_published :: shared where
  "one_published =
     \<lparr>cb = \<lparr>signal = 0, rd = 0, wr = 1,
             entries = (replicate NUMBER_OF_ENTRIES zero_entry)[0 := star9_entry]\<rparr>,
      free_sem = 199, used_sem = 1, write_sem = 1\<rparr>"

definition one_consumed :: shared where
  "one_consumed =
     \<lparr>cb = \<lparr>signal = 0, rd = 1, wr = 1,
             entries = (replicate NUMBER_OF_ENTRIES zero_entry)[0 := star9_entry]\<rparr>,
      free_sem = 200, used_sem = 0, write_sem = 1\<rparr>"

definition solved_shared :: shared where
  "solved_shared = \<lparr>cb = zero_cb\<lparr>wr := 1\<rparr>, free_sem = 199, used_sem = 1, write_sem = 1\<rparr>"

definition sup_at :: "shared \<Rightarrow> sup_st" where
  "sup_at sh = \<lparr>current_best = zero_entry\<lparr>length_e := INT_MAX\<rparr>, ssh = sh, str = []\<rparr>"





definition gen_enter :: "graph \<Rightarrow> shared \<Rightarrow> gen_st" where
  "gen_enter g sh = \<lparr>gr = g, gsh = sh, gtr = gen_started\<rparr>"

section \<open>Graph construction: lemmas\<close>

lemma find_vertex_None: "find_vertex_by_key vs k = None \<longleftrightarrow> k \<notin> key ` set vs"
  by (induction vs) auto

lemma find_vertex_Some:
  "find_vertex_by_key vs k = Some i \<Longrightarrow> i < length vs \<and> key (vs ! i) = k"
  by (induction vs arbitrary: i) (auto split: if_splits)

lemma find_edge_None: "find_edge_by_vertices es p q = None \<longleftrightarrow> {p, q} \<notin> edge_ptrs ` set es"
  by (induction es) (auto simp: edge_ptrs_def doubleton_eq_iff)

lemma add_token_ok: "graph_ok g \<Longrightarrow> graph_ok (add_token a b g)"
  unfolding graph_ok_def add_token_def add_new_vertex_def add_new_edge_def
  apply (auto simp: Let_def find_vertex_None find_edge_None list_all_iff edge_ptrs_def
      dest!: find_vertex_Some split: option.splits prod.splits)
  done


lemma parse_args_ok: "graph_ok g \<Longrightarrow> parse_args args g = Inr g' \<Longrightarrow> graph_ok g'"
  by (induction args arbitrary: g) (auto split: sum.splits dest: add_token_ok)

lemma parse_argv_ok: "parse_argv argv = Inr g \<Longrightarrow> graph_ok g"
proof -
  assume a: "parse_argv argv = Inr g"
  have "graph_ok \<lparr>edges = [], vertices = []\<rparr>" by (simp add: graph_ok_def)
  then show ?thesis using a parse_args_ok unfolding parse_argv_def by blast
qed

lemma find_vertex_unique:
  "distinct (map key vs) \<Longrightarrow> i < length vs \<Longrightarrow> find_vertex_by_key vs (key (vs ! i)) = Some i"
proof (induction vs arbitrary: i)
  case Nil
  then show ?case by simp
next
  case (Cons v vs)
  show ?case
  proof (cases i)
    case 0
    then show ?thesis by simp
  next
    case (Suc k)
    with Cons.prems have "key (vs ! k) \<in> key ` set vs" by simp
    with Cons.prems have "key v \<noteq> key (vs ! k)" by auto
    with Suc Cons show ?thesis by simp
  qed
qed

lemma key_index_inj:
  assumes "distinct (map key vs)" "i < length vs" "j < length vs" "key (vs ! i) = key (vs ! j)"
  shows "i = j"
  using nth_eq_iff_index_eq[OF assms(1), of i j] assms(2-4) by simp

lemma edge_keys_inj:
  assumes ok: "graph_ok g" and e: "e \<in> set (edges g)" and f: "f \<in> set (edges g)"
    and eq: "edge_keys (vertices g) e = edge_keys (vertices g) f"
  shows "edge_ptrs e = edge_ptrs f"
proof -
  let ?vs = "vertices g"
  have d: "distinct (map key ?vs)" using ok by (simp add: graph_ok_def)
  have b: "v1 e < length ?vs" "v2 e < length ?vs" "v1 f < length ?vs" "v2 f < length ?vs"
    using ok e f by (auto simp: graph_ok_def list_all_iff)
  from eq consider
      (same) "key (?vs ! v1 e) = key (?vs ! v1 f)" "key (?vs ! v2 e) = key (?vs ! v2 f)"
    | (swap) "key (?vs ! v1 e) = key (?vs ! v2 f)" "key (?vs ! v2 e) = key (?vs ! v1 f)"
    unfolding edge_keys_def doubleton_eq_iff by fast
  then show ?thesis
  proof cases
    case same
    have "v1 e = v1 f" by (rule key_index_inj[OF d b(1) b(3) same(1)])
    moreover have "v2 e = v2 f" by (rule key_index_inj[OF d b(2) b(4) same(2)])
    ultimately show ?thesis by (simp add: edge_ptrs_def)
  next
    case swap
    have "v1 e = v2 f" by (rule key_index_inj[OF d b(1) b(4) swap(1)])
    moreover have "v2 e = v1 f" by (rule key_index_inj[OF d b(2) b(3) swap(2)])
    ultimately show ?thesis by (simp add: edge_ptrs_def insert_commute)
  qed
qed

lemma edge_keys_distinct: "graph_ok g \<Longrightarrow> distinct (map (edge_keys (vertices g)) (edges g))"
proof -
  assume ok: "graph_ok g"
  have "distinct (map edge_ptrs (edges g))" using ok by (simp add: graph_ok_def)
  moreover have "inj_on (edge_keys (vertices g)) (set (edges g))"
  proof (rule inj_onI)
    fix e f assume e: "e \<in> set (edges g)" and f: "f \<in> set (edges g)"
      and eq: "edge_keys (vertices g) e = edge_keys (vertices g) f"
    have "edge_ptrs e = edge_ptrs f" by (rule edge_keys_inj[OF ok e f eq])
    with \<open>distinct (map edge_ptrs (edges g))\<close> e f show "e = f"
      by (meson distinct_map inj_onD)
  qed
  moreover have "distinct (edges g)" using \<open>distinct (map edge_ptrs (edges g))\<close>
    by (simp add: distinct_map)
  ultimately show ?thesis by (simp add: distinct_map)
qed

lemma add_token_known_vertices:
  "a \<in> key ` set (vertices g) \<Longrightarrow> b \<in> key ` set (vertices g) \<Longrightarrow>
   vertices (add_token a b g) = vertices g"
  unfolding add_token_def
  by (auto simp: Let_def find_vertex_None split: option.splits prod.splits)

lemma add_token_known_edge:
  assumes ok: "graph_ok g" and e: "e \<in> set (edges g)" and k: "edge_keys (vertices g) e = {a, b}"
  shows "add_token a b g = g"
proof -
  let ?vs = "vertices g"
  have d: "distinct (map key ?vs)" using ok by (simp add: graph_ok_def)
  have b: "v1 e < length ?vs" "v2 e < length ?vs"
    using ok e by (auto simp: graph_ok_def list_all_iff)
  from k consider
      (same) "key (?vs ! v1 e) = a" "key (?vs ! v2 e) = b"
    | (swap) "key (?vs ! v1 e) = b" "key (?vs ! v2 e) = a"
    unfolding edge_keys_def doubleton_eq_iff by fast
  then obtain p q where pq: "{p, q} = edge_ptrs e" "p < length ?vs" "q < length ?vs"
     "key (?vs ! p) = a" "key (?vs ! q) = b"
  proof cases
    case same
    show ?thesis by (rule that[of "v1 e" "v2 e"]) (simp_all add: edge_ptrs_def b same)
  next
    case swap
    show ?thesis
      by (rule that[of "v2 e" "v1 e"]) (simp_all add: edge_ptrs_def b swap insert_commute)
  qed
  have fa: "find_vertex_by_key ?vs a = Some p" using find_vertex_unique[OF d pq(2)] pq(4) by simp
  have fb: "find_vertex_by_key ?vs b = Some q" using find_vertex_unique[OF d pq(3)] pq(5) by simp
  have "{p, q} \<in> edge_ptrs ` set (edges g)" using pq(1) e by simp
  then obtain i where fe: "find_edge_by_vertices (edges g) p q = Some i"
    using find_edge_None[of "edges g" p q] by auto
  show ?thesis unfolding add_token_def using fa fb fe by (simp add: Let_def)
qed


lemma parse_args_snoc:
  "parse_args (args @ [t]) g0 =
     (case parse_args args g0 of Inl m \<Rightarrow> Inl m | Inr g \<Rightarrow> parse_args [t] g)"
  by (induction args arbitrary: g0) (auto split: sum.splits)

lemma parse_argv_snoc:
  assumes "parse_argv argv = Inr g" "parse_token t = Inr (a, b)" "add_token a b g = g"
  shows "parse_argv (argv @ [t]) = Inr g"
proof (cases argv)
  case Nil
  with assms(1) have g: "g = \<lparr>edges = [], vertices = []\<rparr>" by (simp add: parse_argv_def)
  show ?thesis using Nil g by (simp add: parse_argv_def)
next
  case (Cons p args)
  with assms show ?thesis by (simp add: parse_argv_def parse_args_snoc)
qed

section \<open>The scan for conflicting edges: lemmas\<close>

lemma src_loop_char: "length rc = j \<Longrightarrow> j \<le> MAXIMUM_SOLUTION_LENGTH \<Longrightarrow>
  src_loop vs es j rc = (min MAXIMUM_SOLUTION_LENGTH (j + length (conflict_set vs es)), rc @ take (MAXIMUM_SOLUTION_LENGTH - j) (conflict_set vs es))"
proof (induction es arbitrary: j rc)
  case Nil
  then show ?case by (simp add: conflict_set_def)
next
  case (Cons e es)
  show ?case
  proof (cases "j < MAXIMUM_SOLUTION_LENGTH")
    case False
    with Cons.prems show ?thesis by simp
  next
    case True
    show ?thesis
    proof (cases "same_color vs e")
      case False
      with True Cons.prems Cons.IH[of rc j] show ?thesis by (simp add: conflict_set_def)
    next
      case sc: True
      have "src_loop vs (e # es) j rc = src_loop vs es (Suc j) (rc @ [e])"
        using True sc by simp
      also have "\<dots> = (min MAXIMUM_SOLUTION_LENGTH (Suc j + length (conflict_set vs es)),
                        (rc @ [e]) @ take (MAXIMUM_SOLUTION_LENGTH - Suc j) (conflict_set vs es))"
        using Cons.IH[of "rc @ [e]" "Suc j"] True Cons.prems by simp
      also have "\<dots> = (min MAXIMUM_SOLUTION_LENGTH (j + length (conflict_set vs (e # es))),
                        rc @ take (MAXIMUM_SOLUTION_LENGTH - j) (conflict_set vs (e # es)))"
        using True sc by (simp add: conflict_set_def take_Cons')
      finally show ?thesis .
    qed
  qed
qed

lemma set_removal_candidates_eq:
  "set_removal_candidates vs es =
     (min MAXIMUM_SOLUTION_LENGTH (length (conflict_set vs es)),
      take MAXIMUM_SOLUTION_LENGTH (conflict_set vs es))"
  unfolding set_removal_candidates_def using src_loop_char[of "[]" 0 vs es] by simp

section \<open>The generator and the supervisor: lemmas\<close>

lemma parse_args_fold:
  "map parse_token args = map Inr ks \<Longrightarrow>
   parse_args args g = Inr (fold (\<lambda>(a, b). add_token a b) ks g)"
proof (induction args arbitrary: ks g)
  case Nil
  then show ?case by simp
next
  case (Cons t ts)
  then obtain k ks' where ks: "ks = k # ks'" "parse_token t = Inr k" "map parse_token ts = map Inr ks'"
    by (cases ks) auto
  obtain a b where k: "k = (a, b)" by (cases k)
  show ?case using Cons.IH[OF ks(3)] ks k by simp
qed

lemma star9_tokens: "map parse_token (tl star9_argv) = map Inr (map (\<lambda>k. (0, int k)) [1..<10])"
  by code_simp

lemma star9_fold: "fold (\<lambda>(a, b). add_token a b) (map (\<lambda>k. (0, int k)) [1..<10]) \<lparr>edges = [], vertices = []\<rparr> = star9"
  by code_simp

lemma star9_parsed: "parse_argv star9_argv = Inr star9"
  unfolding parse_argv_def using parse_args_fold[OF star9_tokens] star9_fold by simp

lemma star9_conflicts: "length (conflict_set star9_colored (edges star9)) = 9" by code_simp

lemma star9_attempt:
  "search_attempt (rnd all_zero) star9 = (star9_colored, Some (8, take 8 (edges star9)))"
  by code_simp

lemma star9_store: "store_entry star9_colored 8 (take 8 (edges star9)) zero_entry = star9_entry"
  by code_simp

lemma zero_cb_simps:
  "signal zero_cb = 0" "rd zero_cb = 0" "wr zero_cb = 0"
  "entries zero_cb = replicate NUMBER_OF_ENTRIES zero_entry"
  by (simp_all add: zero_cb_def)

lemma smod_nonneg: "0 \<le> (a::int) \<Longrightarrow> 0 < b \<Longrightarrow> a smod b = a mod b"
  by (simp add: smod_int_alt_def sgn_if)

lemma star9_pass:
  "gen_body all_zero star9_start =
     Continue \<lparr>gr = star9\<lparr>vertices := star9_colored\<rparr>,
               gsh = \<lparr>cb = \<lparr>signal = 0, rd = 0, wr = 1,
                            entries = (replicate NUMBER_OF_ENTRIES zero_entry)[0 := star9_entry]\<rparr>,
                      free_sem = 199, used_sem = 1, write_sem = 1\<rparr>,
               gtr = [Sem_wait WRITE_SEM_NAME Acquired, Sem_wait FREE_SEM_NAME Acquired,
                      Write_slot 0 8, Printf_reported 8,
                      Sem_post USED_SEM_NAME, Sem_post WRITE_SEM_NAME]\<rparr>"
proof -
  have r: "rnd all_zero = (\<lambda>_. 0)" by (simp add: all_zero_def)
  show ?thesis
    using star9_attempt star9_store
    by (simp add: gen_body_def publish_def star9_start_def fresh_shared_def all_zero_def
        sem_wait_def Let_def in_bounds_def zero_cb_simps NUMBER_OF_ENTRIES_def smod_nonneg)
qed

lemma star9_all_conflict: "conflict_set star9_colored (edges star9) = edges star9"
  by code_simp

lemma star9_print:
  "print_cb_entry_t star9_entry = [(0, 1), (0, 2), (0, 3), (0, 4), (0, 5), (0, 6), (0, 7), (0, 8)]"
  by code_simp

lemma interrupted_pass:
  "gen_body interrupted_free full_start =
     Continue \<lparr>gr = triangle, gsh = full_shared\<lparr>write_sem := 0\<rparr>,
               gtr = [Sem_wait WRITE_SEM_NAME Acquired, Sem_wait FREE_SEM_NAME EINTR]\<rparr>"
  by (simp add: gen_body_def interrupted_free_def all_zero_def full_start_def full_shared_def
      sem_wait_def Let_def)

lemma interrupted_then_again:
  "gen_loop [interrupted_free, all_zero] full_start =
     Blocked \<lparr>gr = triangle, gsh = full_shared\<lparr>write_sem := 0\<rparr>,
              gtr = [Sem_wait WRITE_SEM_NAME Acquired, Sem_wait FREE_SEM_NAME EINTR,
                     Sem_blocked WRITE_SEM_NAME]\<rparr>"
  by (simp add: gen_body_def interrupted_free_def all_zero_def full_start_def full_shared_def
      sem_wait_def Let_def zero_cb_simps)

lemma interrupted_then_quit:
  "gen_main triangle_argv all_ok [interrupted_free, quit_now] full_shared =
     Terminated EXIT_SUCCESS
       \<lparr>gr = triangle, gsh = full_shared\<lparr>write_sem := 0\<rparr>,
        gtr = [Shm_open, Mmap] @ open_sems @ [Printf ''Started generator'']
              @ [Sem_wait WRITE_SEM_NAME Acquired, Sem_wait FREE_SEM_NAME EINTR]
              @ [Munmap, Close] @ close_all @ [Printf ''Cleaned up all resources'']\<rparr>"
proof -
  have p: "parse_argv triangle_argv = Inr triangle" by code_simp
  have l: "length triangle_argv = 6" by (simp add: triangle_argv_def)
  show ?thesis
    by (simp add: gen_main_def p l all_ok_def finish_def gen_finish_def gen_body_def
        interrupted_free_def quit_now_def all_zero_def full_shared_def sem_wait_def Let_def
        zero_cb_simps)
qed

lemma close_all_set:
  "set close_all = {Sem_close FREE_SEM_NAME, Sem_unlink FREE_SEM_NAME, Sem_close USED_SEM_NAME,
                    Sem_unlink USED_SEM_NAME, Sem_close WRITE_SEM_NAME, Sem_unlink WRITE_SEM_NAME}"
  by (auto simp: close_all_def close_sem_def)

lemma search_attempt_Some:
  "\<exists>vs n rc. search_attempt r g = (vs, Some (n, rc)) \<and> n \<le> MAXIMUM_SOLUTION_LENGTH"
  by (simp add: search_attempt_def set_removal_candidates_eq Let_def)

lemma gen_body_trace:
  "\<exists>xs. gtr (state_of (gen_body i st)) = gtr st @ xs
        \<and> (if is_Exit (gen_body i st)
            then \<exists>ys. xs = ys @ close_all @ [Print_errno ''sem_wait failed''] \<and> list_all gen_pass_action ys
            else list_all gen_pass_action xs)"
proof -
  obtain vs n rc where sa: "search_attempt (rnd i) (gr st) = (vs, Some (n, rc))"
    "n \<le> MAXIMUM_SOLUTION_LENGTH"
    using search_attempt_Some by blast
  show ?thesis
    unfolding gen_body_def
    by (cases "res_write i"; cases "res_free i")
       (auto simp: sa publish_def Let_def sem_wait_def gen_pass_action_def)
qed

lemma gen_loop_trace:
  "\<exists>xs. gtr (state_of (gen_loop ins st)) = gtr st @ xs
        \<and> (if is_Exit (gen_loop ins st)
            then \<exists>ys. xs = ys @ close_all @ [Print_errno ''sem_wait failed''] \<and> list_all gen_pass_action ys
            else list_all gen_pass_action xs)"
proof (induction ins arbitrary: st)
  case Nil
  show ?case by simp
next
  case (Cons i ins)
  let ?st1 = "st\<lparr>gsh := env_top i (gsh st)\<rparr>"
  show ?case
  proof (cases "quit_g i \<or> signal (cb (gsh ?st1)) \<noteq> 0")
    case True
    then show ?thesis by (simp add: Let_def)
  next
    case False
    obtain xs where xs: "gtr (state_of (gen_body i ?st1)) = gtr st @ xs"
      "if is_Exit (gen_body i ?st1)
       then \<exists>ys. xs = ys @ close_all @ [Print_errno ''sem_wait failed''] \<and> list_all gen_pass_action ys
       else list_all gen_pass_action xs"
      using gen_body_trace[of i ?st1] by auto
    show ?thesis
    proof (cases "gen_body i ?st1")
      case (Continue st2)
      obtain zs where zs: "gtr (state_of (gen_loop ins st2)) = gtr st2 @ zs"
        "if is_Exit (gen_loop ins st2)
         then \<exists>ys. zs = ys @ close_all @ [Print_errno ''sem_wait failed''] \<and> list_all gen_pass_action ys
         else list_all gen_pass_action zs"
        using Cons.IH[of st2] by auto
      have l: "gen_loop (i # ins) st = gen_loop ins st2"
        using False Continue by (simp add: Let_def)
      have t: "gtr st2 = gtr st @ xs" "list_all gen_pass_action xs"
        using xs Continue by simp_all
      show ?thesis
      proof (cases "is_Exit (gen_loop ins st2)")
        case True
        then obtain ys where "zs = ys @ close_all @ [Print_errno ''sem_wait failed'']"
          "list_all gen_pass_action ys" using zs(2) by auto
        then show ?thesis using l t zs(1) True
          by (intro exI[of _ "xs @ zs"]) (auto intro!: exI[of _ "xs @ ys"])
      next
        case False
        then show ?thesis using l t zs by (intro exI[of _ "xs @ zs"]) auto
      qed
    next
      case (Break st2)
      then show ?thesis using False xs by (auto simp: Let_def)
    next
      case (Exit st2)
      then show ?thesis using False xs by (auto simp: Let_def)
    next
      case (Blocked st2)
      then show ?thesis using False xs by (auto simp: Let_def)
    next
      case (Out_of_bounds st2)
      then show ?thesis using False xs by (auto simp: Let_def)
    qed
  qed
qed

lemma gen_pass_action_simps [simp]:
  "\<not> gen_pass_action Munmap" "\<not> gen_pass_action Shm_unlink" "\<not> gen_pass_action Close"
  "\<not> gen_pass_action (Sem_close s)" "\<not> gen_pass_action (Sem_unlink s)"
  "\<not> gen_pass_action (Printf m)" "\<not> gen_pass_action (Print_errno m)"
  "gen_pass_action (Write_slot k n) = (n \<le> MAXIMUM_SOLUTION_LENGTH)"
  by (simp_all add: gen_pass_action_def)

lemma gen_pass_actionD: "list_all gen_pass_action xs \<Longrightarrow> a \<in> set xs \<Longrightarrow> gen_pass_action a"
  by (simp add: list_all_iff)

lemma close_all_eq:
  "close_all = [Sem_close FREE_SEM_NAME, Sem_unlink FREE_SEM_NAME, Sem_close USED_SEM_NAME,
                Sem_unlink USED_SEM_NAME, Sem_close WRITE_SEM_NAME, Sem_unlink WRITE_SEM_NAME]"
  by (simp add: close_all_def close_sem_def)

lemma gen_main_shape:
  assumes "gen_main argv su ins sh = r"
  shows "(\<exists>st m. r = Terminated EXIT_FAILURE st \<and> gtr st = [Usage m])
       \<or> (\<exists>st m. r = Terminated EXIT_FAILURE st \<and> gtr st = [Shm_open, Print_errno m])
       \<or> (\<exists>st m. r = Terminated EXIT_FAILURE st \<and> gtr st = [Shm_open, Mmap, Print_errno m])
       \<or> (\<exists>st m. r = Terminated EXIT_FAILURE st
               \<and> gtr st = [Shm_open, Mmap] @ open_sems @ close_all @ [Print_errno m])
       \<or> (\<exists>xs. list_all gen_pass_action xs
              \<and> ((\<exists>st m. r = Terminated EXIT_FAILURE st
                        \<and> gtr st = gen_started @ xs @ close_all @ [Print_errno m])
                 \<or> (\<exists>st ms. r = Terminated EXIT_SUCCESS st
                        \<and> gtr st = gen_started @ xs @ map Printf ms @ [Munmap, Close] @ close_all
                                    @ [Printf ''Cleaned up all resources''])
                 \<or> ((\<forall>c st. r \<noteq> Terminated c st) \<and> gtr (final r) = gen_started @ xs)))"
proof (cases "length argv < 2")
  case True
  then have "r = Terminated EXIT_FAILURE
                   \<lparr>gr = \<lparr>edges = [], vertices = []\<rparr>, gsh = sh,
                    gtr = [Usage ''At least one edge must be provided'']\<rparr>"
    using assms by (simp add: gen_main_def)
  then show ?thesis by simp
next
  case long: False
  show ?thesis
  proof (cases "parse_argv argv")
    case (Inl msg)
    then have "r = Terminated EXIT_FAILURE
                   \<lparr>gr = \<lparr>edges = [], vertices = []\<rparr>, gsh = sh, gtr = [Usage msg]\<rparr>"
      using assms long by (simp add: gen_main_def)
    then show ?thesis by simp
  next
    case (Inr g)
    show ?thesis
    proof (cases "shm_open_ok su \<and> mmap_ok su \<and> used_sem_ok su \<and> free_sem_ok su \<and> write_sem_ok su")
      case False
      then consider (shm) "\<not> shm_open_ok su" | (map) "shm_open_ok su" "\<not> mmap_ok su"
        | (sem) "shm_open_ok su" "mmap_ok su"
                "\<not> (used_sem_ok su \<and> free_sem_ok su \<and> write_sem_ok su)"
        by blast
      then show ?thesis
      proof cases
        case shm
        have "r = Terminated EXIT_FAILURE
                    \<lparr>gr = g, gsh = sh, gtr = [Shm_open, Print_errno ''shm_open failed'']\<rparr>"
          using assms long Inr shm by (simp add: gen_main_def)
        then show ?thesis by simp
      next
        case map
        have "r = Terminated EXIT_FAILURE
                    \<lparr>gr = g, gsh = sh, gtr = [Shm_open, Mmap, Print_errno ''mmap failed'']\<rparr>"
          using assms long Inr map by (simp add: gen_main_def)
        then show ?thesis by simp
      next
        case sem
        have "r = Terminated EXIT_FAILURE
                    \<lparr>gr = g, gsh = sh,
                     gtr = [Shm_open, Mmap] @ open_sems @ close_all
                           @ [Print_errno ''sem_open failed'']\<rparr>"
          using assms long Inr sem by (simp add: gen_main_def)
        then show ?thesis by simp
      qed
    next
      case True
      let ?st0 = "\<lparr>gr = g, gsh = sh, gtr = gen_started\<rparr>"
      have r: "r = finish gen_finish (gen_loop ins ?st0)"
        using assms long Inr True by (simp add: gen_main_def gen_started_def)
      obtain xs where xs: "gtr (state_of (gen_loop ins ?st0)) = gen_started @ xs"
        "if is_Exit (gen_loop ins ?st0)
         then \<exists>ys. xs = ys @ close_all @ [Print_errno ''sem_wait failed''] \<and> list_all gen_pass_action ys
         else list_all gen_pass_action xs"
        using gen_loop_trace[of ins ?st0] by auto
      show ?thesis
      proof (cases "gen_loop ins ?st0")
        case (Continue st)
        then show ?thesis using r xs by (auto simp: finish_def)
      next
        case (Break st)
        have "gtr (gen_finish st) = gen_started @ xs
                @ map Printf (if signal (cb (gsh st)) = 1
                              then [''Terminated by order of the supervisor process''] else [])
                @ [Munmap, Close] @ close_all @ [Printf ''Cleaned up all resources'']"
          using xs(1) Break by (simp add: gen_finish_def)
        moreover have "list_all gen_pass_action xs" using xs(2) Break by simp
        moreover have "r = Terminated EXIT_SUCCESS (gen_finish st)"
          using r Break by (simp add: finish_def)
        ultimately show ?thesis by blast
      next
        case (Exit st)
        then obtain ys where "xs = ys @ close_all @ [Print_errno ''sem_wait failed'']"
          "list_all gen_pass_action ys" using xs(2) by auto
        moreover have "r = Terminated EXIT_FAILURE st" using r Exit by (simp add: finish_def)
        ultimately show ?thesis using xs(1) Exit by auto
      next
        case (Blocked st)
        then show ?thesis using r xs by (auto simp: finish_def)
      next
        case (Out_of_bounds st)
        then show ?thesis using r xs by (auto simp: finish_def)
      qed
    qed
  qed
qed

lemma open_sems_set:
  "set open_sems = {Sem_open FREE_SEM_NAME, Sem_open USED_SEM_NAME, Sem_open WRITE_SEM_NAME}"
  by (auto simp: open_sems_def)

lemma gen_started_set:
  "set gen_started = {Shm_open, Mmap, Sem_open FREE_SEM_NAME, Sem_open USED_SEM_NAME,
                      Sem_open WRITE_SEM_NAME, Printf ''Started generator''}"
  by (auto simp: gen_started_def open_sems_def)

lemma quit_run:
  "gen_main triangle_argv all_ok [quit_now] fresh_shared =
     Terminated EXIT_SUCCESS
       \<lparr>gr = triangle, gsh = fresh_shared,
        gtr = [Shm_open, Mmap] @ open_sems @ [Printf ''Started generator'']
              @ [Munmap, Close] @ close_all @ [Printf ''Cleaned up all resources'']\<rparr>"
proof -
  have p: "parse_argv triangle_argv = Inr triangle" by code_simp
  have l: "length triangle_argv = 6" by (simp add: triangle_argv_def)
  show ?thesis
    by (simp add: gen_main_def p l all_ok_def finish_def gen_finish_def
        quit_now_def all_zero_def fresh_shared_def Let_def zero_cb_simps)
qed

lemma in_bounds_smod: "in_bounds r \<Longrightarrow> r smod int NUMBER_OF_ENTRIES = r"
  by (simp add: in_bounds_def smod_nonneg NUMBER_OF_ENTRIES_def)

lemma in_bounds_advance: "in_bounds r \<Longrightarrow> in_bounds ((r + 1) smod int NUMBER_OF_ENTRIES)"
  by (simp add: in_bounds_def smod_nonneg NUMBER_OF_ENTRIES_def)

lemma advance_nat:
  "in_bounds r \<Longrightarrow> nat ((r + 1) smod int NUMBER_OF_ENTRIES) = (nat r + 1) mod NUMBER_OF_ENTRIES"
  by (simp add: in_bounds_def smod_nonneg NUMBER_OF_ENTRIES_def nat_mod_distrib nat_add_distrib)

lemma sup_body_EINTR:
  "res_used i = EINTR \<Longrightarrow>
   sup_body i st = Continue (st\<lparr>ssh := env_used i (ssh st),
                               str := str st @ [Sem_wait USED_SEM_NAME EINTR]\<rparr>)"
  by (simp add: sup_body_def sem_wait_def Let_def)

lemma sup_body_EINVAL:
  "res_used i = EINVAL \<Longrightarrow>
   sup_body i st = Exit (st\<lparr>ssh := env_used i (ssh st),
                           str := str st @ [Sem_wait USED_SEM_NAME EINVAL] @ close_all
                                  @ [Print_errno ''sem_wait failed'']\<rparr>)"
  by (simp add: sup_body_def sem_wait_def Let_def)

lemma sup_body_blocked:
  "res_used i = Acquired \<Longrightarrow> used_sem (env_used i (ssh st)) = 0 \<Longrightarrow>
   sup_body i st = Blocked (st\<lparr>ssh := env_used i (ssh st),
                              str := str st @ [Sem_blocked USED_SEM_NAME]\<rparr>)"
  by (simp add: sup_body_def sem_wait_def Let_def)

lemma sup_body_solved:
  assumes "res_used i = Acquired" "0 < used_sem (env_used i (ssh st))"
    "in_bounds (rd (cb (env_used i (ssh st))))"
    "length_e (entries (cb (env_used i (ssh st))) ! nat (rd (cb (env_used i (ssh st))))) = 0"
  shows "sup_body i st =
     Break (st\<lparr>ssh := post_free ((env_used i (ssh st))\<lparr>used_sem := used_sem (env_used i (ssh st)) - 1\<rparr>),
               str := str st @ [Sem_wait USED_SEM_NAME Acquired,
                                Read_slot (nat (rd (cb (env_used i (ssh st))))) 0,
                                Printf ''The graph is 3-colorable'', Sem_post FREE_SEM_NAME]\<rparr>)"
  using assms by (simp add: sup_body_def sem_wait_def Let_def in_bounds_smod)

lemma sup_body_worse:
  assumes "res_used i = Acquired" "0 < used_sem (env_used i (ssh st))"
    "in_bounds (rd (cb (env_used i (ssh st))))"
    "e = entries (cb (env_used i (ssh st))) ! nat (rd (cb (env_used i (ssh st))))"
    "length_e e \<noteq> 0" "length_e (current_best st) \<le> length_e e"
  shows "sup_body i st =
     Continue (st\<lparr>ssh := post_free (advance_rd ((env_used i (ssh st))\<lparr>used_sem := used_sem (env_used i (ssh st)) - 1\<rparr>)),
               str := str st @ [Sem_wait USED_SEM_NAME Acquired,
                                Read_slot (nat (rd (cb (env_used i (ssh st))))) (length_e e),
                                Sem_post FREE_SEM_NAME]\<rparr>)"
  using assms by (simp add: sup_body_def sem_wait_def Let_def in_bounds_smod)

lemma sup_body_better:
  assumes "res_used i = Acquired" "0 < used_sem (env_used i (ssh st))"
    "in_bounds (rd (cb (env_used i (ssh st))))"
    "e = entries (cb (env_used i (ssh st))) ! nat (rd (cb (env_used i (ssh st))))"
    "length_e e \<noteq> 0" "length_e e < length_e (current_best st)"
  shows "sup_body i st =
     Continue (st\<lparr>current_best := e,
               ssh := post_free (advance_rd ((env_used i (ssh st))\<lparr>used_sem := used_sem (env_used i (ssh st)) - 1\<rparr>)),
               str := str st @ [Sem_wait USED_SEM_NAME Acquired,
                                Read_slot (nat (rd (cb (env_used i (ssh st))))) (length_e e),
                                Printf_solution (length_e e) (print_cb_entry_t e),
                                Sem_post FREE_SEM_NAME]\<rparr>)"
  using assms by (simp add: sup_body_def sem_wait_def Let_def in_bounds_smod)

lemma sup_body_best_le:
  "length_e (current_best (state_of (sup_body i st))) \<le> length_e (current_best st)"
  by (cases "res_used i") (auto simp: sup_body_def sem_wait_def Let_def)

lemma sup_loop_best_le:
  "length_e (current_best (state_of (sup_loop ins st))) \<le> length_e (current_best st)"
proof (induction ins arbitrary: st)
  case Nil
  show ?case by simp
next
  case (Cons i ins)
  show ?case
  proof (cases "quit_s i")
    case True
    then show ?thesis by simp
  next
    case False
    show ?thesis
    proof (cases "sup_body i st")
      case (Continue st1)
      have "length_e (current_best st1) \<le> length_e (current_best st)"
        using sup_body_best_le[of i st] Continue by simp
      moreover have "sup_loop (i # ins) st = sup_loop ins st1" using False Continue by simp
      ultimately show ?thesis using Cons.IH[of st1] by simp
    qed (use False sup_body_best_le[of i st] in auto)
  qed
qed

lemma slots_read_append: "slots_read (xs @ ys) = slots_read xs @ slots_read ys"
  by (induction xs rule: slots_read.induct) simp_all

lemma post_advance_simps [simp]:
  "rd (cb (post_free sh)) = rd (cb sh)"
  "rd (cb (advance_rd sh)) = (rd (cb sh) + 1) smod int NUMBER_OF_ENTRIES"
  "rd (cb (sh\<lparr>used_sem := n\<rparr>)) = rd (cb sh)"
  by (simp_all add: post_free_def advance_rd_def)

lemma sup_body_reads:
  assumes inb: "in_bounds (rd (cb (ssh st)))"
    and env: "\<forall>sh. rd (cb (env_used i sh)) = rd (cb sh)"
  shows "\<not> is_Out_of_bounds (sup_body i st)
       \<and> in_bounds (rd (cb (ssh (state_of (sup_body i st)))))
       \<and> ((slots_read (str (state_of (sup_body i st))) = slots_read (str st)
            \<and> rd (cb (ssh (state_of (sup_body i st)))) = rd (cb (ssh st)))
          \<or> (slots_read (str (state_of (sup_body i st)))
                = slots_read (str st) @ [nat (rd (cb (ssh st)))]
              \<and> is_Continue (sup_body i st)
              \<and> rd (cb (ssh (state_of (sup_body i st))))
                  = (rd (cb (ssh st)) + 1) smod int NUMBER_OF_ENTRIES)
          \<or> (slots_read (str (state_of (sup_body i st)))
                = slots_read (str st) @ [nat (rd (cb (ssh st)))]
              \<and> is_Break (sup_body i st)
              \<and> rd (cb (ssh (state_of (sup_body i st)))) = rd (cb (ssh st))))"
proof -
  let ?sh0 = "env_used i (ssh st)"
  have r0: "rd (cb ?sh0) = rd (cb (ssh st))" using env by simp
  have inb0: "in_bounds (rd (cb ?sh0))" using inb r0 by simp
  show ?thesis
  proof (cases "res_used i")
    case EINTR
    show ?thesis by (simp add: sup_body_EINTR[OF EINTR] slots_read_append r0 inb)
  next
    case EINVAL
    show ?thesis
      by (simp add: sup_body_EINVAL[OF EINVAL] slots_read_append r0 inb close_all_eq)
  next
    case Acquired
    show ?thesis
    proof (cases "used_sem ?sh0 = 0")
      case True
      show ?thesis by (simp add: sup_body_blocked[OF Acquired True] slots_read_append r0 inb)
    next
      case False
      then have pos: "0 < used_sem ?sh0" by simp
      define e where "e = entries (cb ?sh0) ! nat (rd (cb ?sh0))"
      consider (z) "length_e e = 0"
        | (w) "length_e e \<noteq> 0" "length_e (current_best st) \<le> length_e e"
        | (b) "length_e e \<noteq> 0" "length_e e < length_e (current_best st)"
        by linarith
      then show ?thesis
      proof cases
        case z
        show ?thesis
          using sup_body_solved[OF Acquired pos inb0 z[unfolded e_def]]
          by (simp add: slots_read_append r0 inb)
      next
        case w
        show ?thesis
          using sup_body_worse[OF Acquired pos inb0 e_def w]
          by (simp add: slots_read_append r0 inb in_bounds_advance)
      next
        case b
        show ?thesis
          using sup_body_better[OF Acquired pos inb0 e_def b]
          by (simp add: slots_read_append r0 inb in_bounds_advance)
      qed
    qed
  qed
qed

lemma cyclic_step:
  assumes "k < NUMBER_OF_ENTRIES"
  shows "[k] @ map (\<lambda>j. ((k + 1) mod NUMBER_OF_ENTRIES + j) mod NUMBER_OF_ENTRIES) [0..<m]
         = map (\<lambda>j. (k + j) mod NUMBER_OF_ENTRIES) [0..<Suc m]"
proof -
  have "map (\<lambda>j. (k + j) mod NUMBER_OF_ENTRIES) [0..<Suc m]
        = (k + 0) mod NUMBER_OF_ENTRIES # map (\<lambda>j. (k + Suc j) mod NUMBER_OF_ENTRIES) [0..<m]"
    by (simp only: map_upt_Suc)
  moreover have "\<And>j. ((k + 1) mod NUMBER_OF_ENTRIES + j) mod NUMBER_OF_ENTRIES
                      = (k + Suc j) mod NUMBER_OF_ENTRIES"
    by (simp add: mod_add_left_eq)
  ultimately show ?thesis using assms by simp
qed

lemma sup_loop_reads:
  assumes "in_bounds (rd (cb (ssh st)))"
    and "\<forall>i\<in>set ins. \<forall>sh. rd (cb (env_used i sh)) = rd (cb sh)"
  shows "\<not> is_Out_of_bounds (sup_loop ins st)
       \<and> in_bounds (rd (cb (ssh (state_of (sup_loop ins st)))))
       \<and> (\<exists>n. slots_read (str (state_of (sup_loop ins st)))
                = slots_read (str st)
                  @ map (\<lambda>j. (nat (rd (cb (ssh st))) + j) mod NUMBER_OF_ENTRIES) [0..<n])"
  using assms
proof (induction ins arbitrary: st)
  case Nil
  then show ?case by (auto intro: exI[of _ 0])
next
  case (Cons i ins)
  let ?k = "nat (rd (cb (ssh st)))"
  have kb: "?k < NUMBER_OF_ENTRIES" using Cons.prems(1) by (auto simp: in_bounds_def)
  show ?case
  proof (cases "quit_s i")
    case True
    then show ?thesis using Cons.prems(1) by (auto intro: exI[of _ 0])
  next
    case False
    have env: "\<forall>sh. rd (cb (env_used i sh)) = rd (cb sh)" using Cons.prems(2) by simp
    note b = sup_body_reads[OF Cons.prems(1) env]
    show ?thesis
    proof (cases "sup_body i st")
      case (Continue st1)
      have l: "sup_loop (i # ins) st = sup_loop ins st1" using False Continue by simp
      have inb1: "in_bounds (rd (cb (ssh st1)))" using b Continue by simp
      have envs: "\<forall>i\<in>set ins. \<forall>sh. rd (cb (env_used i sh)) = rd (cb sh)"
        using Cons.prems(2) by simp
      from Cons.IH[OF inb1 envs] obtain m where ih:
        "\<not> is_Out_of_bounds (sup_loop ins st1)"
        "in_bounds (rd (cb (ssh (state_of (sup_loop ins st1)))))"
        "slots_read (str (state_of (sup_loop ins st1)))
           = slots_read (str st1)
             @ map (\<lambda>j. (nat (rd (cb (ssh st1))) + j) mod NUMBER_OF_ENTRIES) [0..<m]"
        by blast
      from b Continue consider
          (same) "slots_read (str st1) = slots_read (str st)" "rd (cb (ssh st1)) = rd (cb (ssh st))"
        | (adv) "slots_read (str st1) = slots_read (str st) @ [?k]"
                "rd (cb (ssh st1)) = (rd (cb (ssh st)) + 1) smod int NUMBER_OF_ENTRIES"
        by auto
      then show ?thesis
      proof cases
        case same
        show ?thesis using ih same l by auto
      next
        case adv
        have k1: "nat (rd (cb (ssh st1))) = (?k + 1) mod NUMBER_OF_ENTRIES"
          using adv(2) advance_nat[OF Cons.prems(1)] by simp
        have "slots_read (str (state_of (sup_loop ins st1)))
              = slots_read (str st) @ map (\<lambda>j. (?k + j) mod NUMBER_OF_ENTRIES) [0..<Suc m]"
          using ih(3) adv(1) k1 cyclic_step[OF kb, of m] by simp
        then show ?thesis using ih(1,2) l by (auto simp del: upt_Suc)
      qed
    next
      case (Break st1)
      have l: "sup_loop (i # ins) st = Break st1" using False Break by simp
      from b Break consider
          (same) "slots_read (str st1) = slots_read (str st)"
        | (adv) "slots_read (str st1) = slots_read (str st) @ [?k]"
        by auto
      then show ?thesis
      proof cases
        case same
        then show ?thesis using l b Break by (auto intro: exI[of _ 0])
      next
        case adv
        then show ?thesis using l b Break kb by (auto intro!: exI[of _ 1])
      qed
    next
      case (Exit st1)
      have l: "sup_loop (i # ins) st = Exit st1" using False Exit by simp
      show ?thesis using l b Exit by (auto intro: exI[of _ 0])
    next
      case (Blocked st1)
      have l: "sup_loop (i # ins) st = Blocked st1" using False Blocked by simp
      show ?thesis using l b Blocked by (auto intro: exI[of _ 0])
    next
      case (Out_of_bounds st1)
      then show ?thesis using b by simp
    qed
  qed
qed

lemma sup_pass_action_simps [simp]:
  "\<not> sup_pass_action Munmap" "\<not> sup_pass_action Shm_unlink" "\<not> sup_pass_action Close"
  "\<not> sup_pass_action (Sem_close s)" "\<not> sup_pass_action (Sem_unlink s)"
  "\<not> sup_pass_action Store_signal" "\<not> sup_pass_action (Print_errno m)"
  by (simp_all add: sup_pass_action_def)





lemma sup_main_started:
  assumes "length argv = 1" "shm_open_ok su" "ftruncate_ok su" "mmap_ok su"
    "used_sem_ok su" "free_sem_ok su" "write_sem_ok su"
  shows "sup_main argv su ins c0 e0 = finish sup_finish (sup_loop ins (sup_enter c0 e0))"
  using assms by (simp add: sup_main_def sup_enter_def sup_started_def)


lemma gen_body_keeps_rd:
  assumes "\<forall>sh. rd (cb (env_write i sh)) = rd (cb sh)" "\<forall>sh. rd (cb (env_free i sh)) = rd (cb sh)"
  shows "rd (cb (gsh (state_of (gen_body i st)))) = rd (cb (gsh st))"
proof -
  obtain vs n rc where sa: "search_attempt (rnd i) (gr st) = (vs, Some (n, rc))"
    using search_attempt_Some by blast
  show ?thesis
    unfolding gen_body_def
    by (cases "res_write i"; cases "res_free i")
       (auto simp: sa publish_def Let_def sem_wait_def assms)
qed

lemma star9_publishes_rd: "rd (cb (star9_publishes sh)) = rd (cb sh)"
  unfolding star9_publishes_def
  using gen_body_keeps_rd[of all_zero "\<lparr>gr = star9, gsh = sh, gtr = []\<rparr>"]
  by (simp add: all_zero_def)

lemma star9_publishes_fresh: "star9_publishes fresh_shared = one_published"
  using star9_pass by (simp add: star9_publishes_def star9_start_def one_published_def)

lemma sup_enter_simps:
  "ssh (sup_enter c0 e0) = \<lparr>cb = c0, free_sem = NUMBER_OF_ENTRIES, used_sem = 0, write_sem = 1\<rparr>"
  "str (sup_enter c0 e0) = sup_started"
  "current_best (sup_enter c0 e0) = e0\<lparr>length_e := INT_MAX\<rparr>"
  by (simp_all add: sup_enter_def)

lemma first_consume:
  "sup_body after_star9 (sup_enter zero_cb zero_entry) =
     Continue \<lparr>current_best = star9_entry, ssh = one_consumed,
               str = sup_started @ [Sem_wait USED_SEM_NAME Acquired, Read_slot 0 8,
                                    Printf_solution 8 (print_cb_entry_t star9_entry),
                                    Sem_post FREE_SEM_NAME]\<rparr>"
proof -
  let ?st = "sup_enter zero_cb zero_entry"
  have sh0: "env_used after_star9 (ssh ?st) = one_published"
    using star9_publishes_fresh by (simp add: after_star9_def sup_enter_simps fresh_shared_def)
  have e: "entries (cb one_published) ! nat (rd (cb one_published)) = star9_entry"
    by (simp add: one_published_def NUMBER_OF_ENTRIES_def)
  have 1: "res_used after_star9 = Acquired" by (simp add: after_star9_def)
  have 2: "0 < used_sem (env_used after_star9 (ssh ?st))" by (simp add: sh0 one_published_def)
  have 3: "in_bounds (rd (cb (env_used after_star9 (ssh ?st))))"
    by (simp add: sh0 one_published_def in_bounds_def NUMBER_OF_ENTRIES_def)
  have 4: "star9_entry = entries (cb (env_used after_star9 (ssh ?st)))
                           ! nat (rd (cb (env_used after_star9 (ssh ?st))))"
    by (simp add: sh0 e)
  have 5: "length_e star9_entry \<noteq> 0" by (simp add: star9_entry_def)
  have 6: "length_e star9_entry < length_e (current_best ?st)"
    by (simp add: star9_entry_def sup_enter_simps INT_MAX_def)
  show ?thesis
    unfolding sup_body_better[OF 1 2 3 4 5 6] sh0
    by (simp add: sup_enter_def one_published_def one_consumed_def post_free_def advance_rd_def
        NUMBER_OF_ENTRIES_def smod_nonneg star9_entry_def)
qed

lemma store_keys_length: "length_e (store_keys vs rc ns e) = length_e e"
  by (induction ns arbitrary: e) simp_all

lemma store_entry_length: "length_e (store_entry vs n rc e) = n"
  by (simp add: store_entry_def store_keys_length)

lemma publish_entries_ok:
  assumes "entries_ok (gsh st)" "n \<le> MAXIMUM_SOLUTION_LENGTH"
  shows "entries_ok (gsh (state_of (publish vs n rc st)))"
proof (cases "in_bounds (wr (cb (gsh st)))")
  case False
  then show ?thesis using assms(1) by (simp add: publish_def Let_def)
next
  case True
  let ?es = "entries (cb (gsh st))"
  let ?w = "nat (wr (cb (gsh st)))"
  have "list_all (\<lambda>e. length_e e \<le> MAXIMUM_SOLUTION_LENGTH)
          (?es[?w := store_entry vs n rc (?es ! ?w)])"
    using assms by (auto simp: entries_ok_def list_all_iff store_entry_length
        dest!: subsetD[OF set_update_subset_insert])
  then show ?thesis using True assms(1) by (simp add: publish_def Let_def entries_ok_def)
qed

lemma entries_ok_sems [simp]:
  "entries_ok (sh\<lparr>write_sem := n\<rparr>) = entries_ok sh"
  "entries_ok (sh\<lparr>free_sem := n\<rparr>) = entries_ok sh"
  "entries_ok (sh\<lparr>used_sem := n\<rparr>) = entries_ok sh"
  "entries_ok (post_free sh) = entries_ok sh"
  "entries_ok (advance_rd sh) = entries_ok sh"
  by (simp_all add: entries_ok_def post_free_def advance_rd_def)

lemma gen_body_entries_ok:
  assumes ok: "entries_ok (gsh st)"
    and env: "\<forall>s. entries_ok s \<longrightarrow> entries_ok (env_write i s) \<and> entries_ok (env_free i s)"
  shows "entries_ok (gsh (state_of (gen_body i st)))"
proof -
  obtain vs n rc where sa: "search_attempt (rnd i) (gr st) = (vs, Some (n, rc))"
    "n \<le> MAXIMUM_SOLUTION_LENGTH"
    using search_attempt_Some by blast
  have w: "entries_ok (env_write i (gsh st))" using ok env by simp
  have f: "\<And>k. entries_ok (env_free i (env_write i (gsh st)\<lparr>write_sem := k\<rparr>))"
    using w env by simp
  show ?thesis
  proof (cases "sem_wait (res_write i) (write_sem (env_write i (gsh st)))")
    case (Got k)
    show ?thesis
    proof (cases "sem_wait (res_free i) (free_sem (env_free i (env_write i (gsh st)\<lparr>write_sem := k\<rparr>)))")
      case (Got m)
      show ?thesis
        using \<open>sem_wait (res_write i) (write_sem (env_write i (gsh st))) = Got k\<close> Got sa f[of k]
        by (simp add: gen_body_def Let_def publish_entries_ok)
    qed (use Got f[of k] in \<open>simp_all add: gen_body_def Let_def\<close>)
  qed (use w in \<open>simp_all add: gen_body_def Let_def\<close>)
qed

lemma fresh_entries_ok: "entries_ok fresh_shared"
  by (simp add: entries_ok_def fresh_shared_def zero_cb_simps list_all_iff zero_entry_def)

lemma entries_ok_nth:
  "entries_ok sh \<Longrightarrow> in_bounds r \<Longrightarrow> length_e (entries (cb sh) ! nat r) \<le> MAXIMUM_SOLUTION_LENGTH"
  by (auto simp: entries_ok_def in_bounds_def list_all_length)

lemma sup_body_entries_ok:
  assumes "entries_ok (env_used j (ssh s))"
  shows "entries_ok (ssh (state_of (sup_body j s)))
       \<and> (\<forall>k n. Read_slot k n \<in> set (str (state_of (sup_body j s)))
              \<longrightarrow> Read_slot k n \<in> set (str s) \<or> n \<le> MAXIMUM_SOLUTION_LENGTH)"
proof (cases "sem_wait (res_used j) (used_sem (env_used j (ssh s)))")
  case (Got m)
  let ?sh0 = "env_used j (ssh s)"
  have n1: "in_bounds (rd (cb ?sh0)) \<Longrightarrow>
            length_e (entries (cb ?sh0) ! nat (rd (cb ?sh0))) \<le> MAXIMUM_SOLUTION_LENGTH"
    using entries_ok_nth[OF assms] by simp
  show ?thesis using Got assms n1 by (auto simp: sup_body_def Let_def close_all_eq)
qed (use assms in \<open>auto simp: sup_body_def Let_def close_all_eq\<close>)

lemma gen_main_writes:
  "Write_slot w n \<in> set (gtr (final (gen_main argv su ins sh))) \<Longrightarrow> n \<le> MAXIMUM_SOLUTION_LENGTH"
proof -
  assume a: "Write_slot w n \<in> set (gtr (final (gen_main argv su ins sh)))"
  have x: "\<And>xs. list_all gen_pass_action xs \<Longrightarrow> Write_slot w n \<in> set xs \<Longrightarrow> n \<le> MAXIMUM_SOLUTION_LENGTH"
    using gen_pass_actionD by fastforce
  from gen_main_shape[OF refl, of argv su ins sh] a show ?thesis
    by (elim disjE exE conjE) (auto simp: gen_started_set close_all_set open_sems_set dest: x)
qed

lemma sup_body_consume:
  assumes acq: "res_used i = Acquired" and pos: "0 < used_sem (env_used i (ssh s))"
    and inb: "in_bounds (rd (cb (env_used i (ssh s))))"
  shows "let sh0 = env_used i (ssh s); e = entries (cb sh0) ! nat (rd (cb sh0));
             r = sup_body i s; s' = state_of r
         in slots_read (str s') = slots_read (str s) @ [nat (rd (cb sh0))]
            \<and> free_sem (ssh s') = free_sem sh0 + 1
            \<and> used_sem (ssh s') = used_sem sh0 - 1
            \<and> (length_e e \<noteq> 0 \<longrightarrow>
                 is_Continue r \<and> rd (cb (ssh s')) = (rd (cb sh0) + 1) mod int NUMBER_OF_ENTRIES)
            \<and> (length_e e = 0 \<longrightarrow> is_Break r \<and> rd (cb (ssh s')) = rd (cb sh0))
            \<and> (length_e (current_best s) \<le> length_e e \<longrightarrow> current_best s' = current_best s)
            \<and> (0 < length_e e \<and> length_e e < length_e (current_best s) \<longrightarrow> current_best s' = e)"
proof -
  define e where "e = entries (cb (env_used i (ssh s))) ! nat (rd (cb (env_used i (ssh s))))"
  have m: "(rd (cb (env_used i (ssh s))) + 1) smod int NUMBER_OF_ENTRIES
           = (rd (cb (env_used i (ssh s))) + 1) mod int NUMBER_OF_ENTRIES"
    using inb by (simp add: in_bounds_def smod_nonneg NUMBER_OF_ENTRIES_def)
  consider (z) "length_e e = 0"
    | (w) "length_e e \<noteq> 0" "length_e (current_best s) \<le> length_e e"
    | (b) "length_e e \<noteq> 0" "length_e e < length_e (current_best s)"
    by linarith
  then show ?thesis
  proof cases
    case z
    show ?thesis
      using sup_body_solved[OF acq pos inb z[unfolded e_def]] z
      by (simp add: Let_def slots_read_append e_def[symmetric] post_free_def)
  next
    case w
    show ?thesis
      using sup_body_worse[OF acq pos inb e_def w] w m
      by (simp add: Let_def slots_read_append e_def[symmetric] post_free_def advance_rd_def)
  next
    case b
    show ?thesis
      using sup_body_better[OF acq pos inb e_def b] b m
      by (simp add: Let_def slots_read_append e_def[symmetric] post_free_def advance_rd_def)
  qed
qed

lemma second_blocks:
  "sup_loop [after_star9, calm] (sup_enter zero_cb zero_entry) =
     Blocked \<lparr>current_best = star9_entry, ssh = one_consumed,
              str = sup_started @ [Sem_wait USED_SEM_NAME Acquired, Read_slot 0 8,
                                   Printf_solution 8 (print_cb_entry_t star9_entry),
                                   Sem_post FREE_SEM_NAME, Sem_blocked USED_SEM_NAME]\<rparr>"
proof -
  let ?st1 = "\<lparr>current_best = star9_entry, ssh = one_consumed,
               str = sup_started @ [Sem_wait USED_SEM_NAME Acquired, Read_slot 0 8,
                                    Printf_solution 8 (print_cb_entry_t star9_entry),
                                    Sem_post FREE_SEM_NAME]\<rparr>"
  have q: "\<not> quit_s after_star9" "\<not> quit_s calm" by (simp_all add: after_star9_def calm_def)
  have a: "res_used calm = Acquired" by (simp add: calm_def)
  have u: "used_sem (env_used calm (ssh ?st1)) = 0" by (simp add: calm_def one_consumed_def)
  have e: "env_used calm (ssh ?st1) = one_consumed" by (simp add: calm_def)
  show ?thesis
    using q first_consume sup_body_blocked[OF a u] by (simp add: calm_def)
qed

lemma after_star9_sees:
  "env_used after_star9 (ssh (sup_enter zero_cb zero_entry)) = one_published"
proof -
  have "ssh (sup_enter zero_cb zero_entry) = fresh_shared"
    by (simp add: sup_enter_simps fresh_shared_def)
  then show ?thesis using star9_publishes_fresh by (simp add: after_star9_def)
qed

lemma gen_main_started:
  assumes "2 \<le> length argv" "parse_argv argv = Inr g" "shm_open_ok su" "mmap_ok su"
    "used_sem_ok su" "free_sem_ok su" "write_sem_ok su"
  shows "gen_main argv su ins sh = finish gen_finish (gen_loop ins (gen_enter g sh))"
  using assms by (simp add: gen_main_def gen_enter_def gen_started_def)










lemma star9_run:
  "gen_main star9_argv all_ok [all_zero] fresh_shared =
     Running \<lparr>gr = star9\<lparr>vertices := star9_colored\<rparr>, gsh = one_published,
               gtr = gen_started @ [Sem_wait WRITE_SEM_NAME Acquired, Sem_wait FREE_SEM_NAME Acquired,
                      Write_slot 0 8, Printf_reported 8,
                      Sem_post USED_SEM_NAME, Sem_post WRITE_SEM_NAME]\<rparr>"
proof -
  have ok: "2 \<le> length star9_argv" "shm_open_ok all_ok" "mmap_ok all_ok"
    "used_sem_ok all_ok" "free_sem_ok all_ok" "write_sem_ok all_ok"
    by (simp_all add: all_ok_def star9_argv_def)
  have q: "\<not> quit_g all_zero" "env_top all_zero = id" by (simp_all add: all_zero_def)
  have s: "signal (cb (gsh (gen_enter star9 fresh_shared))) = 0"
    by (simp add: gen_enter_def fresh_shared_def zero_cb_simps)
  have g: "gsh (gen_enter star9 fresh_shared) = fresh_shared" by (simp add: gen_enter_def)
  have r: "rnd all_zero = (\<lambda>_. 0)" by (simp add: all_zero_def)
  have b: "gen_body all_zero (gen_enter star9 fresh_shared) =
     Continue \<lparr>gr = star9\<lparr>vertices := star9_colored\<rparr>, gsh = one_published,
               gtr = gen_started @ [Sem_wait WRITE_SEM_NAME Acquired, Sem_wait FREE_SEM_NAME Acquired,
                      Write_slot 0 8, Printf_reported 8,
                      Sem_post USED_SEM_NAME, Sem_post WRITE_SEM_NAME]\<rparr>"
    using star9_attempt star9_store
    by (simp add: gen_body_def publish_def gen_enter_def fresh_shared_def all_zero_def
        one_published_def sem_wait_def Let_def in_bounds_def zero_cb_simps NUMBER_OF_ENTRIES_def
        smod_nonneg)
  have e: "(gen_enter star9 fresh_shared)\<lparr>gsh := fresh_shared\<rparr> = gen_enter star9 fresh_shared"
    by (simp add: gen_enter_def)
  show ?thesis
    unfolding gen_main_started[OF ok(1) star9_parsed ok(2) ok(3) ok(4) ok(5) ok(6)]
    using q s b by (simp add: finish_def Let_def g e)
qed

lemma star9_pass_published:
  "gen_body all_zero star9_start =
     Continue \<lparr>gr = star9\<lparr>vertices := star9_colored\<rparr>, gsh = one_published,
               gtr = [Sem_wait WRITE_SEM_NAME Acquired, Sem_wait FREE_SEM_NAME Acquired,
                      Write_slot 0 8, Printf_reported 8,
                      Sem_post USED_SEM_NAME, Sem_post WRITE_SEM_NAME]\<rparr>"
  unfolding star9_pass by (simp add: one_published_def)

section \<open>The claims\<close>

text \<open>
  C1, as the code has it. The claim is that an attempt whose conflict set is larger than
  \<open>MAXIMUM_SOLUTION_LENGTH\<close> is discarded before any semaphore is touched, so that the
  channel stays as it was. For the star with nine edges and one colour for all vertices
  the conflict set has 9 edges, and the pass through the loop takes the writer lock and
  a free slot, stores the first 8 edges as an entry of length 8 in slot 0, advances
  \<open>wr\<close> and posts the semaphore of the filled slots: one free slot fewer, one filled
  slot more, slot 0 overwritten.
\<close>

theorem oversized_attempt_is_published:
  "parse_argv star9_argv = Inr star9
   \<and> length (conflict_set star9_colored (edges star9)) = 9
   \<and> gsh star9_start = fresh_shared
   \<and> gen_body all_zero star9_start =
       Continue \<lparr>gr = star9\<lparr>vertices := star9_colored\<rparr>, gsh = one_published,
                 gtr = [Sem_wait WRITE_SEM_NAME Acquired, Sem_wait FREE_SEM_NAME Acquired,
                        Write_slot 0 8, Printf_reported 8,
                        Sem_post USED_SEM_NAME, Sem_post WRITE_SEM_NAME]\<rparr>
   \<and> free_sem fresh_shared = 200 \<and> free_sem one_published = 199
   \<and> used_sem fresh_shared = 0 \<and> used_sem one_published = 1
   \<and> wr (cb fresh_shared) = 0 \<and> wr (cb one_published) = 1
   \<and> entries (cb fresh_shared) ! 0 = zero_entry \<and> entries (cb one_published) ! 0 = star9_entry"
  using star9_parsed star9_conflicts star9_pass_published
  by (simp add: star9_start_def fresh_shared_def one_published_def zero_cb_simps
      NUMBER_OF_ENTRIES_def)

theorem oversized_attempt_is_published_witness:
  "gsh (state_of (gen_body all_zero star9_start)) \<noteq> gsh star9_start
   \<and> MAXIMUM_SOLUTION_LENGTH < length (conflict_set star9_colored (edges star9))"
proof -
  have "free_sem one_published \<noteq> free_sem fresh_shared"
    using oversized_attempt_is_published by simp
  then have "one_published \<noteq> fresh_shared" by auto
  then show ?thesis
    using oversized_attempt_is_published by (simp add: MAXIMUM_SOLUTION_LENGTH_def)
qed

text \<open>
  C2, as the code has it. The claim is that the entry the generator builds is exactly
  the set of edges whose endpoints share a colour, and that its length is their number.
  For the star with nine edges and one colour for all vertices every edge conflicts, yet
  \<open>set_removal_candidates\<close> returns the count 8 with the first 8 edges, and the entry
  built from them has length 8 and lists the pairs 0-1 to 0-8: the conflicting edge 0-9
  is not recorded.
\<close>

theorem candidate_entry_is_truncated:
  "conflict_set star9_colored (edges star9) = edges star9
   \<and> length (edges star9) = 9
   \<and> set_removal_candidates star9_colored (edges star9) = (8, take 8 (edges star9))
   \<and> store_entry star9_colored 8 (take 8 (edges star9)) zero_entry = star9_entry
   \<and> length_e star9_entry = 8
   \<and> print_cb_entry_t star9_entry
       = [(0, 1), (0, 2), (0, 3), (0, 4), (0, 5), (0, 6), (0, 7), (0, 8)]"
proof -
  have l: "length (edges star9) = 9" by (simp add: star9_def)
  have s: "set_removal_candidates star9_colored (edges star9) = (8, take 8 (edges star9))"
    by (simp add: set_removal_candidates_eq star9_all_conflict l MAXIMUM_SOLUTION_LENGTH_def)
  show ?thesis
    using star9_all_conflict l s star9_store star9_print by (simp add: star9_entry_def)
qed

theorem candidate_entry_is_truncated_witness:
  "fst (set_removal_candidates star9_colored (edges star9))
     \<noteq> length (conflict_set star9_colored (edges star9))
   \<and> (0, 9) \<notin> set (print_cb_entry_t star9_entry)"
  using candidate_entry_is_truncated by simp

text \<open>
  C3. For every edge list and every colouring, \<open>set_removal_candidates\<close> returns a
  count of at most \<open>MAXIMUM_SOLUTION_LENGTH\<close> (8), because the scan stops once 8
  conflicting edges are collected; so the test
  \<open>removal_candidates_length > MAXIMUM_SOLUTION_LENGTH\<close> in \<open>main\<close> is never true and
  an attempt is never discarded.
\<close>

theorem set_removal_candidates_at_most_8:
  "fst (set_removal_candidates vs es) \<le> MAXIMUM_SOLUTION_LENGTH
   \<and> \<not> fst (set_removal_candidates vs es) > MAXIMUM_SOLUTION_LENGTH
   \<and> (\<exists>n rc. snd (search_attempt r g) = Some (n, rc) \<and> n \<le> MAXIMUM_SOLUTION_LENGTH)"
  by (simp add: set_removal_candidates_eq search_attempt_def Let_def)

theorem set_removal_candidates_at_most_8_witness:
  "fst (set_removal_candidates (vertices star9) (edges star9)) = 8
   \<and> length (conflict_set (vertices star9) (edges star9)) = 9
   \<and> (\<exists>n rc. snd (search_attempt (\<lambda>_. 0) star9) = Some (n, rc) \<and> n \<le> 8)"
proof -
  have a: "fst (set_removal_candidates (vertices star9) (edges star9)) = 8" by code_simp
  have b: "length (conflict_set (vertices star9) (edges star9)) = 9" by code_simp
  show ?thesis
    using a b set_removal_candidates_at_most_8[of "vertices star9" "edges star9" "\<lambda>_. 0" star9]
    by (simp add: MAXIMUM_SOLUTION_LENGTH_def)
qed

text \<open>
  C4, as the code has it. The claim is that an interrupted \<open>sem_wait\<close> is retried with
  no net change to any permit count, and that a generator interrupted in the wait for a
  free slot does not take the writer lock a second time. With every slot unread, a
  generator takes the writer lock (its count goes from 1 to 0), is interrupted in the
  wait for a free slot and starts its loop over with the lock held: the next pass waits
  for the writer lock again and cannot get it, and a generator that finds \<open>quit\<close> set
  instead terminates with the count still 0.
\<close>

theorem interrupted_wait_keeps_writer_lock:
  "write_sem (gsh full_start) = 1
   \<and> gen_body interrupted_free full_start =
       Continue \<lparr>gr = triangle, gsh = full_shared\<lparr>write_sem := 0\<rparr>,
                 gtr = [Sem_wait WRITE_SEM_NAME Acquired, Sem_wait FREE_SEM_NAME EINTR]\<rparr>
   \<and> gen_loop [interrupted_free, all_zero] full_start =
       Blocked \<lparr>gr = triangle, gsh = full_shared\<lparr>write_sem := 0\<rparr>,
                gtr = [Sem_wait WRITE_SEM_NAME Acquired, Sem_wait FREE_SEM_NAME EINTR,
                       Sem_blocked WRITE_SEM_NAME]\<rparr>
   \<and> gen_main triangle_argv all_ok [interrupted_free, quit_now] full_shared =
       Terminated EXIT_SUCCESS
         \<lparr>gr = triangle, gsh = full_shared\<lparr>write_sem := 0\<rparr>,
          gtr = [Shm_open, Mmap] @ open_sems @ [Printf ''Started generator'']
                @ [Sem_wait WRITE_SEM_NAME Acquired, Sem_wait FREE_SEM_NAME EINTR]
                @ [Munmap, Close] @ close_all @ [Printf ''Cleaned up all resources'']\<rparr>"
  using interrupted_pass interrupted_then_again interrupted_then_quit
  by (simp add: full_start_def full_shared_def)

theorem interrupted_wait_keeps_writer_lock_witness:
  "write_sem (gsh (state_of (gen_body interrupted_free full_start))) = 0
   \<and> write_sem (gsh full_start) = 1
   \<and> is_Blocked (gen_loop [interrupted_free, all_zero] full_start)"
  using interrupted_wait_keeps_writer_lock by (simp add: full_shared_def)

text \<open>
  C5, as the code has it. The claim is that on every exit path the generator closes its
  semaphore handles and unmaps the shared region, and never unlinks a named semaphore
  or the shared-memory object. The generator does leave the shared-memory object alone,
  but \<open>close_sem\<close> unlinks as well as closes: a generator told to quit at its first
  loop test unmaps, closes the descriptor and then closes and unlinks each of the three
  semaphores; a generator whose \<open>sem_open\<close> fails, and one whose \<open>sem_wait\<close> fails,
  closes and unlinks each of the three semaphores and exits without unmapping the region
  or closing the descriptor.
\<close>

theorem generator_unlinks_semaphores:
  "gen_main triangle_argv all_ok [quit_now] fresh_shared
     = Terminated EXIT_SUCCESS
         \<lparr>gr = triangle, gsh = fresh_shared,
          gtr = [Shm_open, Mmap, Sem_open FREE_SEM_NAME, Sem_open USED_SEM_NAME,
                 Sem_open WRITE_SEM_NAME, Printf ''Started generator'', Munmap, Close,
                 Sem_close FREE_SEM_NAME, Sem_unlink FREE_SEM_NAME,
                 Sem_close USED_SEM_NAME, Sem_unlink USED_SEM_NAME,
                 Sem_close WRITE_SEM_NAME, Sem_unlink WRITE_SEM_NAME,
                 Printf ''Cleaned up all resources'']\<rparr>
   \<and> gen_main triangle_argv sem_open_fails [] fresh_shared
     = Terminated EXIT_FAILURE
         \<lparr>gr = triangle, gsh = fresh_shared,
          gtr = [Shm_open, Mmap, Sem_open FREE_SEM_NAME, Sem_open USED_SEM_NAME,
                 Sem_open WRITE_SEM_NAME,
                 Sem_close FREE_SEM_NAME, Sem_unlink FREE_SEM_NAME,
                 Sem_close USED_SEM_NAME, Sem_unlink USED_SEM_NAME,
                 Sem_close WRITE_SEM_NAME, Sem_unlink WRITE_SEM_NAME,
                 Print_errno ''sem_open failed'']\<rparr>
   \<and> gen_main triangle_argv all_ok [wait_fails] fresh_shared
     = Terminated EXIT_FAILURE
         \<lparr>gr = triangle, gsh = fresh_shared,
          gtr = [Shm_open, Mmap, Sem_open FREE_SEM_NAME, Sem_open USED_SEM_NAME,
                 Sem_open WRITE_SEM_NAME, Printf ''Started generator'',
                 Sem_wait WRITE_SEM_NAME EINVAL,
                 Sem_close FREE_SEM_NAME, Sem_unlink FREE_SEM_NAME,
                 Sem_close USED_SEM_NAME, Sem_unlink USED_SEM_NAME,
                 Sem_close WRITE_SEM_NAME, Sem_unlink WRITE_SEM_NAME,
                 Print_errno ''sem_wait failed'']\<rparr>"
proof -
  have p: "parse_argv triangle_argv = Inr triangle" by code_simp
  have l: "length triangle_argv = 6" by (simp add: triangle_argv_def)
  have 1: "gen_main triangle_argv all_ok [quit_now] fresh_shared
     = Terminated EXIT_SUCCESS
         \<lparr>gr = triangle, gsh = fresh_shared,
          gtr = [Shm_open, Mmap, Sem_open FREE_SEM_NAME, Sem_open USED_SEM_NAME,
                 Sem_open WRITE_SEM_NAME, Printf ''Started generator'', Munmap, Close,
                 Sem_close FREE_SEM_NAME, Sem_unlink FREE_SEM_NAME,
                 Sem_close USED_SEM_NAME, Sem_unlink USED_SEM_NAME,
                 Sem_close WRITE_SEM_NAME, Sem_unlink WRITE_SEM_NAME,
                 Printf ''Cleaned up all resources'']\<rparr>"
    by (simp add: quit_run open_sems_def close_all_def close_sem_def)
  have 2: "gen_main triangle_argv sem_open_fails [] fresh_shared
     = Terminated EXIT_FAILURE
         \<lparr>gr = triangle, gsh = fresh_shared,
          gtr = [Shm_open, Mmap, Sem_open FREE_SEM_NAME, Sem_open USED_SEM_NAME,
                 Sem_open WRITE_SEM_NAME,
                 Sem_close FREE_SEM_NAME, Sem_unlink FREE_SEM_NAME,
                 Sem_close USED_SEM_NAME, Sem_unlink USED_SEM_NAME,
                 Sem_close WRITE_SEM_NAME, Sem_unlink WRITE_SEM_NAME,
                 Print_errno ''sem_open failed'']\<rparr>"
    by (simp add: gen_main_def p l sem_open_fails_def all_ok_def open_sems_def close_all_def
        close_sem_def)
  have 3: "gen_main triangle_argv all_ok [wait_fails] fresh_shared
     = Terminated EXIT_FAILURE
         \<lparr>gr = triangle, gsh = fresh_shared,
          gtr = [Shm_open, Mmap, Sem_open FREE_SEM_NAME, Sem_open USED_SEM_NAME,
                 Sem_open WRITE_SEM_NAME, Printf ''Started generator'',
                 Sem_wait WRITE_SEM_NAME EINVAL,
                 Sem_close FREE_SEM_NAME, Sem_unlink FREE_SEM_NAME,
                 Sem_close USED_SEM_NAME, Sem_unlink USED_SEM_NAME,
                 Sem_close WRITE_SEM_NAME, Sem_unlink WRITE_SEM_NAME,
                 Print_errno ''sem_wait failed'']\<rparr>"
    by (simp add: gen_main_def p l all_ok_def finish_def gen_body_def wait_fails_def
        all_zero_def fresh_shared_def sem_wait_def Let_def zero_cb_simps open_sems_def
        close_all_def close_sem_def)
  show ?thesis using 1 2 3 by simp
qed

theorem generator_unlinks_semaphores_witness:
  "Sem_unlink FREE_SEM_NAME
     \<in> set (gtr (final (gen_main triangle_argv all_ok [quit_now] fresh_shared)))
   \<and> Sem_unlink WRITE_SEM_NAME
     \<in> set (gtr (final (gen_main triangle_argv sem_open_fails [] fresh_shared)))
   \<and> Munmap \<notin> set (gtr (final (gen_main triangle_argv sem_open_fails [] fresh_shared)))
   \<and> Munmap \<notin> set (gtr (final (gen_main triangle_argv all_ok [wait_fails] fresh_shared)))
   \<and> Shm_unlink \<notin> set (gtr (final (gen_main triangle_argv all_ok [quit_now] fresh_shared)))"
  using generator_unlinks_semaphores by simp

text \<open>
  A consume that finds an entry of length 0 in slot 0: the slot is read and a free-slot
  permit is released, but \<open>rd\<close> stays 0.
\<close>

theorem consume_without_advance_counterexample:
  "sup_body calm (sup_at solved_shared)
     = Break \<lparr>current_best = zero_entry\<lparr>length_e := INT_MAX\<rparr>,
              ssh = \<lparr>cb = zero_cb\<lparr>wr := 1\<rparr>, free_sem = 200, used_sem = 0, write_sem = 1\<rparr>,
              str = [Sem_wait USED_SEM_NAME Acquired, Read_slot 0 0,
                     Printf ''The graph is 3-colorable'', Sem_post FREE_SEM_NAME]\<rparr>
   \<and> rd (cb solved_shared) = 0
   \<and> rd (cb (ssh (state_of (sup_body calm (sup_at solved_shared))))) = 0
   \<and> (rd (cb solved_shared) + 1) mod int NUMBER_OF_ENTRIES = 1"
proof -
  let ?st = "sup_at solved_shared"
  have sh0: "env_used calm (ssh ?st) = solved_shared" by (simp add: calm_def sup_at_def)
  have 1: "res_used calm = Acquired" by (simp add: calm_def)
  have 2: "0 < used_sem (env_used calm (ssh ?st))"
    unfolding sh0 by (simp add: solved_shared_def)
  have 3: "in_bounds (rd (cb (env_used calm (ssh ?st))))"
    unfolding sh0 by (simp add: solved_shared_def in_bounds_def zero_cb_simps NUMBER_OF_ENTRIES_def)
  have 4: "length_e (entries (cb (env_used calm (ssh ?st)))
                       ! nat (rd (cb (env_used calm (ssh ?st))))) = 0"
    unfolding sh0 by (simp add: solved_shared_def zero_cb_simps NUMBER_OF_ENTRIES_def zero_entry_def)
  show ?thesis
    unfolding sup_body_solved[OF 1 2 3 4] sh0
    by (simp add: sup_at_def solved_shared_def post_free_def zero_cb_simps NUMBER_OF_ENTRIES_def)
qed

text \<open>
  C6, amended. While the other processes leave \<open>rd\<close> alone, \<open>rd\<close> stays in
  \<open>[0, NUMBER_OF_ENTRIES)\<close>, no read is out of bounds, and the slots the supervisor reads
  in the course of its loop are \<open>rd, rd + 1, ...\<close> modulo \<open>NUMBER_OF_ENTRIES\<close>, in this
  order, without a gap or a repetition. Every consume reads the slot at \<open>rd\<close>, takes
  one permit of the filled slots and releases one of the free slots; it advances \<open>rd\<close>
  by one modulo \<open>NUMBER_OF_ENTRIES\<close> when the entry has a length other than 0, and
  leaves \<open>rd\<close> as it is and ends the loop when the length is 0.
\<close>

theorem read_index_cycles:
  assumes "in_bounds (rd (cb (ssh st)))"
    and "\<forall>i\<in>set ins. \<forall>sh. rd (cb (env_used i sh)) = rd (cb sh)"
  shows "\<not> is_Out_of_bounds (sup_loop ins st)
       \<and> in_bounds (rd (cb (ssh (state_of (sup_loop ins st)))))
       \<and> (\<exists>n. slots_read (str (state_of (sup_loop ins st)))
                = slots_read (str st)
                  @ map (\<lambda>j. (nat (rd (cb (ssh st))) + j) mod NUMBER_OF_ENTRIES) [0..<n])
       \<and> (\<forall>i\<in>set ins. \<forall>s. in_bounds (rd (cb (ssh s))) \<and> res_used i = Acquired
               \<and> 0 < used_sem (env_used i (ssh s)) \<longrightarrow>
             (let sh0 = env_used i (ssh s); e = entries (cb sh0) ! nat (rd (cb (ssh s)));
                  r = sup_body i s; s' = state_of r
              in slots_read (str s') = slots_read (str s) @ [nat (rd (cb (ssh s)))]
                 \<and> free_sem (ssh s') = free_sem sh0 + 1
                 \<and> used_sem (ssh s') = used_sem sh0 - 1
                 \<and> (length_e e \<noteq> 0 \<longrightarrow>
                      is_Continue r
                      \<and> rd (cb (ssh s')) = (rd (cb (ssh s)) + 1) mod int NUMBER_OF_ENTRIES)
                 \<and> (length_e e = 0 \<longrightarrow> is_Break r \<and> rd (cb (ssh s')) = rd (cb (ssh s)))))"
proof -
  have pass: "let sh0 = env_used i (ssh s); e = entries (cb sh0) ! nat (rd (cb (ssh s)));
                  r = sup_body i s; s' = state_of r
              in slots_read (str s') = slots_read (str s) @ [nat (rd (cb (ssh s)))]
                 \<and> free_sem (ssh s') = free_sem sh0 + 1
                 \<and> used_sem (ssh s') = used_sem sh0 - 1
                 \<and> (length_e e \<noteq> 0 \<longrightarrow>
                      is_Continue r
                      \<and> rd (cb (ssh s')) = (rd (cb (ssh s)) + 1) mod int NUMBER_OF_ENTRIES)
                 \<and> (length_e e = 0 \<longrightarrow> is_Break r \<and> rd (cb (ssh s')) = rd (cb (ssh s)))"
    if i: "i \<in> set ins" and h: "in_bounds (rd (cb (ssh s)))" "res_used i = Acquired"
       "0 < used_sem (env_used i (ssh s))" for i s
  proof -
    have r0: "rd (cb (env_used i (ssh s))) = rd (cb (ssh s))" using assms(2) i by simp
    have inb: "in_bounds (rd (cb (env_used i (ssh s))))" using h(1) r0 by simp
    show ?thesis using sup_body_consume[OF h(2) h(3) inb] by (simp add: Let_def r0)
  qed
  show ?thesis using sup_loop_reads[OF assms] pass by blast
qed

theorem read_index_cycles_witness:
  "slots_read (str (state_of (sup_loop [after_star9, calm] (sup_enter zero_cb zero_entry)))) = [0]
   \<and> rd (cb (ssh (state_of (sup_loop [after_star9, calm] (sup_enter zero_cb zero_entry))))) = 1
   \<and> in_bounds (rd (cb (ssh (state_of (sup_loop [after_star9, calm] (sup_enter zero_cb zero_entry))))))
   \<and> free_sem (ssh (state_of (sup_body after_star9 (sup_enter zero_cb zero_entry))))
       = free_sem (star9_publishes fresh_shared) + 1"
proof -
  have h1: "in_bounds (rd (cb (ssh (sup_enter zero_cb zero_entry))))"
    by (simp add: sup_enter_simps zero_cb_simps in_bounds_def NUMBER_OF_ENTRIES_def)
  have h2: "\<forall>i\<in>set [after_star9, calm]. \<forall>sh. rd (cb (env_used i sh)) = rd (cb sh)"
    by (simp add: after_star9_def calm_def star9_publishes_rd)
  have s: "slots_read (str (state_of (sup_loop [after_star9, calm] (sup_enter zero_cb zero_entry)))) = [0]"
    unfolding second_blocks by (simp add: slots_read_append sup_started_def open_sems_def)
  have r: "rd (cb (ssh (state_of (sup_loop [after_star9, calm] (sup_enter zero_cb zero_entry))))) = 1"
    unfolding second_blocks by (simp add: one_consumed_def)
  have f: "free_sem (ssh (state_of (sup_body after_star9 (sup_enter zero_cb zero_entry))))
            = free_sem (star9_publishes fresh_shared) + 1"
    unfolding first_consume star9_publishes_fresh by (simp add: one_consumed_def one_published_def)
  show ?thesis using read_index_cycles[OF h1 h2] s r f by simp
qed

text \<open>
  C7. The supervisor enters its loop with a best length of \<open>INT_MAX\<close>, which is above
  every length that fits a slot. The best length never grows, over one pass or over
  the whole loop. A consumed entry whose length is at least the best length leaves
  \<open>current_best\<close> (length and remembered edges) as it is; a consumed entry with
  \<open>0 < length < best length\<close> becomes \<open>current_best\<close>.
\<close>

theorem best_length_never_grows:
  "(length argv = 1 \<and> shm_open_ok su \<and> ftruncate_ok su \<and> mmap_ok su
      \<and> used_sem_ok su \<and> free_sem_ok su \<and> write_sem_ok su \<longrightarrow>
      sup_main argv su ins c0 e0 = finish sup_finish (sup_loop ins (sup_enter c0 e0)))
   \<and> length_e (current_best (sup_enter c0 e0)) = INT_MAX
   \<and> MAXIMUM_SOLUTION_LENGTH < INT_MAX
   \<and> length_e (current_best (state_of (sup_loop ins st))) \<le> length_e (current_best st)
   \<and> length_e (current_best (state_of (sup_body i st))) \<le> length_e (current_best st)
   \<and> (res_used i = Acquired \<and> 0 < used_sem (env_used i (ssh st))
        \<and> in_bounds (rd (cb (env_used i (ssh st)))) \<longrightarrow>
       (let sh0 = env_used i (ssh st); e = entries (cb sh0) ! nat (rd (cb sh0));
            st' = state_of (sup_body i st)
        in (length_e (current_best st) \<le> length_e e \<longrightarrow> current_best st' = current_best st)
           \<and> (0 < length_e e \<and> length_e e < length_e (current_best st) \<longrightarrow>
                current_best st' = e \<and> length_e (current_best st') = length_e e)))"
proof -
  have 1: "length argv = 1 \<and> shm_open_ok su \<and> ftruncate_ok su \<and> mmap_ok su
      \<and> used_sem_ok su \<and> free_sem_ok su \<and> write_sem_ok su \<longrightarrow>
      sup_main argv su ins c0 e0 = finish sup_finish (sup_loop ins (sup_enter c0 e0))"
    using sup_main_started by blast
  have 2: "length_e (current_best (sup_enter c0 e0)) = INT_MAX"
    "MAXIMUM_SOLUTION_LENGTH < INT_MAX"
    by (simp_all add: sup_enter_simps INT_MAX_def MAXIMUM_SOLUTION_LENGTH_def)
  have 3: "res_used i = Acquired \<and> 0 < used_sem (env_used i (ssh st))
        \<and> in_bounds (rd (cb (env_used i (ssh st)))) \<longrightarrow>
       (let sh0 = env_used i (ssh st); e = entries (cb sh0) ! nat (rd (cb sh0));
            st' = state_of (sup_body i st)
        in (length_e (current_best st) \<le> length_e e \<longrightarrow> current_best st' = current_best st)
           \<and> (0 < length_e e \<and> length_e e < length_e (current_best st) \<longrightarrow>
                current_best st' = e \<and> length_e (current_best st') = length_e e))"
  proof (intro impI, elim conjE)
    assume h: "res_used i = Acquired" "0 < used_sem (env_used i (ssh st))"
      "in_bounds (rd (cb (env_used i (ssh st))))"
    show "let sh0 = env_used i (ssh st); e = entries (cb sh0) ! nat (rd (cb sh0));
            st' = state_of (sup_body i st)
        in (length_e (current_best st) \<le> length_e e \<longrightarrow> current_best st' = current_best st)
           \<and> (0 < length_e e \<and> length_e e < length_e (current_best st) \<longrightarrow>
                current_best st' = e \<and> length_e (current_best st') = length_e e)"
      using sup_body_consume[OF h] by (simp add: Let_def)
  qed
  show ?thesis using 1 2 3 sup_loop_best_le[of ins st] sup_body_best_le[of i st] by blast
qed

theorem best_length_never_grows_witness:
  "sup_main [''supervisor''] all_ok [after_star9, calm] zero_cb zero_entry
     = finish sup_finish (sup_loop [after_star9, calm] (sup_enter zero_cb zero_entry))
   \<and> length_e (current_best (sup_enter zero_cb zero_entry)) = 2147483647
   \<and> length_e (current_best (state_of (sup_loop [after_star9, calm] (sup_enter zero_cb zero_entry)))) = 8
   \<and> current_best (state_of (sup_body after_star9 (sup_enter zero_cb zero_entry))) = star9_entry"
proof -
  have ok: "length [''supervisor''] = 1 \<and> shm_open_ok all_ok \<and> ftruncate_ok all_ok \<and> mmap_ok all_ok
      \<and> used_sem_ok all_ok \<and> free_sem_ok all_ok \<and> write_sem_ok all_ok"
    by (simp add: all_ok_def)
  have c: "res_used after_star9 = Acquired
        \<and> 0 < used_sem (env_used after_star9 (ssh (sup_enter zero_cb zero_entry)))
        \<and> in_bounds (rd (cb (env_used after_star9 (ssh (sup_enter zero_cb zero_entry)))))"
    unfolding after_star9_sees
    by (simp add: after_star9_def one_published_def in_bounds_def NUMBER_OF_ENTRIES_def)
  have l: "length_e (current_best (state_of (sup_loop [after_star9, calm] (sup_enter zero_cb zero_entry)))) = 8"
    unfolding second_blocks by (simp add: star9_entry_def)
  have b: "current_best (state_of (sup_body after_star9 (sup_enter zero_cb zero_entry))) = star9_entry"
    unfolding first_consume by simp
  show ?thesis
    using best_length_never_grows[of "[''supervisor'']" all_ok "[after_star9, calm]" zero_cb zero_entry
        "sup_enter zero_cb zero_entry" after_star9] ok c l b
    by (simp add: INT_MAX_def)
qed



text \<open>
  C9. Every entry a generator stores into a slot, in any run, has a length of at most
  \<open>MAXIMUM_SOLUTION_LENGTH\<close>. The freshly created region has only such entries, a pass
  of a generator keeps it so (when the other processes do), and a supervisor that finds
  the region so reads only lengths of at most \<open>MAXIMUM_SOLUTION_LENGTH\<close>.
\<close>

theorem written_entries_fit:
  "(\<forall>w n. Write_slot w n \<in> set (gtr (final (gen_main argv su ins sh)))
       \<longrightarrow> n \<le> MAXIMUM_SOLUTION_LENGTH)
   \<and> entries_ok fresh_shared
   \<and> (entries_ok (gsh st)
        \<and> (\<forall>s. entries_ok s \<longrightarrow> entries_ok (env_write i s) \<and> entries_ok (env_free i s))
       \<longrightarrow> entries_ok (gsh (state_of (gen_body i st))))
   \<and> (entries_ok (env_used j (ssh s)) \<longrightarrow>
        entries_ok (ssh (state_of (sup_body j s)))
        \<and> (\<forall>k n. Read_slot k n \<in> set (str (state_of (sup_body j s)))
               \<longrightarrow> Read_slot k n \<in> set (str s) \<or> n \<le> MAXIMUM_SOLUTION_LENGTH))"
  using gen_main_writes[of _ _ argv su ins sh] fresh_entries_ok
    gen_body_entries_ok[of st i] sup_body_entries_ok[of j s]
  by blast

theorem written_entries_fit_witness:
  "Write_slot 0 8 \<in> set (gtr (final (gen_main star9_argv all_ok [all_zero] fresh_shared)))
   \<and> (8::nat) \<le> MAXIMUM_SOLUTION_LENGTH
   \<and> entries_ok (gsh (state_of (gen_body all_zero star9_start)))
   \<and> Read_slot 0 8 \<in> set (str (state_of (sup_body after_star9 (sup_enter zero_cb zero_entry))))
   \<and> entries_ok (ssh (state_of (sup_body after_star9 (sup_enter zero_cb zero_entry))))"
proof -
  note t = written_entries_fit[of star9_argv all_ok "[all_zero]" fresh_shared star9_start all_zero
      after_star9 "sup_enter zero_cb zero_entry"]
  have w: "Write_slot 0 8 \<in> set (gtr (final (gen_main star9_argv all_ok [all_zero] fresh_shared)))"
    unfolding star9_run by simp
  have h1: "entries_ok (gsh star9_start)" using t by (simp add: star9_start_def)
  have h2: "\<forall>s. entries_ok s \<longrightarrow> entries_ok (env_write all_zero s) \<and> entries_ok (env_free all_zero s)"
    by (simp add: all_zero_def)
  have p: "entries_ok one_published"
    using t h1 h2 star9_pass by (simp add: one_published_def)
  have h3: "entries_ok (env_used after_star9 (ssh (sup_enter zero_cb zero_entry)))"
    unfolding after_star9_sees by (rule p)
  have r: "Read_slot 0 8 \<in> set (str (state_of (sup_body after_star9 (sup_enter zero_cb zero_entry))))"
    unfolding first_consume by simp
  show ?thesis using t w h1 h2 h3 r by blast
qed

text \<open>
  C10. After \<open>parse_argv\<close> the keys in the vertex array are pairwise distinct, and no
  two edges connect the same pair of vertices in either order (neither as pointers nor
  as keys). An argument whose two keys are both present leaves the vertex array as it
  is, and an argument naming an edge that is present, in either order, leaves both
  arrays as they are.
\<close>

theorem parse_argv_coalesces:
  assumes "parse_argv argv = Inr g"
  shows "distinct (map key (vertices g))
       \<and> distinct (map edge_ptrs (edges g))
       \<and> distinct (map (edge_keys (vertices g)) (edges g))
       \<and> (\<forall>a b. a \<in> key ` set (vertices g) \<and> b \<in> key ` set (vertices g)
              \<longrightarrow> vertices (add_token a b g) = vertices g)
       \<and> (\<forall>t a b e. parse_token t = Inr (a, b) \<and> e \<in> set (edges g)
                \<and> (edge_keys (vertices g) e = {a, b} \<or> edge_keys (vertices g) e = {b, a})
              \<longrightarrow> add_token a b g = g \<and> parse_argv (argv @ [t]) = Inr g)"
proof -
  have ok: "graph_ok g" using assms by (rule parse_argv_ok)
  have 1: "distinct (map key (vertices g))" "distinct (map edge_ptrs (edges g))"
    using ok by (simp_all add: graph_ok_def)
  have 2: "distinct (map (edge_keys (vertices g)) (edges g))"
    using ok by (rule edge_keys_distinct)
  have 3: "\<forall>a b. a \<in> key ` set (vertices g) \<and> b \<in> key ` set (vertices g)
              \<longrightarrow> vertices (add_token a b g) = vertices g"
    using add_token_known_vertices by blast
  have 4: "add_token a b g = g \<and> parse_argv (argv @ [t]) = Inr g"
    if h: "parse_token t = Inr (a, b)" "e \<in> set (edges g)"
       "edge_keys (vertices g) e = {a, b} \<or> edge_keys (vertices g) e = {b, a}" for t a b e
  proof -
    have k: "edge_keys (vertices g) e = {a, b}" using h(3) by (auto simp: insert_commute)
    have u: "add_token a b g = g" by (rule add_token_known_edge[OF ok h(2) k])
    show ?thesis using u parse_argv_snoc[OF assms h(1) u] by simp
  qed
  show ?thesis using 1 2 3 4 by blast
qed

theorem parse_argv_coalesces_witness:
  "parse_argv triangle_argv = Inr triangle
   \<and> distinct (map key (vertices triangle))
   \<and> distinct (map (edge_keys (vertices triangle)) (edges triangle))
   \<and> parse_token ''2-1'' = Inr (2, 1)
   \<and> add_token 2 1 triangle = triangle
   \<and> parse_argv (triangle_argv @ [''2-1'']) = Inr triangle"
proof -
  have p: "parse_argv triangle_argv = Inr triangle" by code_simp
  have t: "parse_token ''2-1'' = Inr (2, 1)" by code_simp
  have e: "\<lparr>v1 = 1, v2 = 2\<rparr> \<in> set (edges triangle)" by (simp add: triangle_def)
  have k: "edge_keys (vertices triangle) \<lparr>v1 = 1, v2 = 2\<rparr> = {1, 2}"
    by (simp add: triangle_def edge_keys_def)
  show ?thesis using parse_argv_coalesces[OF p] p t e k by blast
qed

end
